theory Spec2Isabelle
  imports Main
begin

section \<open>Python values and exceptions\<close>

text \<open>
  The hub is written in Python. A parsed OpenAPI document is the tree that
  \<^verbatim>\<open>json.loads\<close> or \<^verbatim>\<open>yaml.safe_load\<close> returns: \<^verbatim>\<open>None\<close>, booleans, integers,
  floats, strings, lists and dicts. A dict is the list of its items in insertion order
  (the order \<^verbatim>\<open>.items()\<close> iterates); its keys are strings and are distinct. A float is
  held as its \<^verbatim>\<open>repr\<close>, the shortest decimal string that reads back as the same float, so
  it is zero exactly when that string is \<^verbatim>\<open>0.0\<close> or \<^verbatim>\<open>-0.0\<close>. A string is a list of code
  points below 256. The same type serves for the arguments of a tool call.
\<close>

datatype json =
    JNull
  | JBool bool
  | JInt int
  | JFloat string
  | JStr string
  | JList "json list"
  | JDict "(string \<times> json) list"

text \<open>
  Every \<^verbatim>\<open>raise\<close> of the source, and every exception the interpreter raises for an
  operation the source applies to a value of the wrong shape, is a value of \<open>exn\<close>.
\<close>

datatype exn =
    OpenAPIConversionError string
  | AttributeError
  | TypeError
  | KeyError string
  | ValueError string
  | HTTPException nat string

text \<open>Truth value of a document value, as \<^verbatim>\<open>if x:\<close> and \<^verbatim>\<open>not x\<close> test it.\<close>

fun truthy :: "json \<Rightarrow> bool" where
  "truthy JNull = False"
| "truthy (JBool b) = b"
| "truthy (JInt i) = (i \<noteq> 0)"
| "truthy (JFloat r) = (r \<noteq> ''0.0'' \<and> r \<noteq> ''-0.0'')"
| "truthy (JStr s) = (s \<noteq> [])"
| "truthy (JList xs) = (xs \<noteq> [])"
| "truthy (JDict kvs) = (kvs \<noteq> [])"

text \<open>\<^verbatim>\<open>isinstance(x, dict)\<close>.\<close>

fun is_dict :: "json \<Rightarrow> bool" where
  "is_dict (JDict kvs) = True"
| "is_dict _ = False"

text \<open>
  \<^verbatim>\<open>x.get(key, default)\<close>: only a dict has the method; on any other document value the
  attribute lookup raises \<^verbatim>\<open>AttributeError\<close>.
\<close>

fun py_get :: "json \<Rightarrow> string \<Rightarrow> json \<Rightarrow> exn + json" where
  "py_get (JDict kvs) k d = Inr (case map_of kvs k of Some v \<Rightarrow> v | None \<Rightarrow> d)"
| "py_get _ k d = Inl AttributeError"

section \<open>Strings\<close>

definition ascii_alnum :: "char \<Rightarrow> bool" where
  \<comment> \<open>the character class \<^verbatim>\<open>[a-zA-Z0-9]\<close>\<close>
  "ascii_alnum c =
     (let n = (of_char c :: nat)
      in (48 \<le> n \<and> n \<le> 57) \<or> (65 \<le> n \<and> n \<le> 90) \<or> (97 \<le> n \<and> n \<le> 122))"

definition word_char :: "char \<Rightarrow> bool" where
  \<comment> \<open>the class \<^verbatim>\<open>\w\<close> of a \<^verbatim>\<open>str\<close> pattern: alphanumeric code points and the underscore;
      below 256 these are the ASCII ones and the Latin-1 letters and numbers\<close>
  "word_char c =
     (let n = (of_char c :: nat)
      in ascii_alnum c \<or> n = 95 \<or> n = 170 \<or> n = 178 \<or> n = 179 \<or> n = 181 \<or> n = 185
         \<or> n = 186 \<or> (188 \<le> n \<and> n \<le> 190) \<or> (192 \<le> n \<and> n \<le> 214)
         \<or> (216 \<le> n \<and> n \<le> 246) \<or> 248 \<le> n)"

definition match_placeholder :: "string \<Rightarrow> (string \<times> string) option" where
  \<comment> \<open>a match of \<^verbatim>\<open>\{(\w+)\}\<close> at the start of the string: the group and what follows the match\<close>
  "match_placeholder s =
     (case s of
        [] \<Rightarrow> None
      | c # cs \<Rightarrow>
          if c \<noteq> CHR ''{'' then None
          else (case dropWhile word_char cs of
                  [] \<Rightarrow> None
                | d # r \<Rightarrow>
                    if takeWhile word_char cs \<noteq> [] \<and> d = CHR ''}''
                    then Some (takeWhile word_char cs, r) else None))"

lemma match_placeholder_shorter:
  "match_placeholder s = Some (w, r) \<Longrightarrow> length r < length s"
proof -
  assume m: "match_placeholder s = Some (w, r)"
  then obtain c cs where s: "s = c # cs"
    by (cases s) (auto simp: match_placeholder_def)
  from m s obtain d where d: "dropWhile word_char cs = d # r"
    by (auto simp: match_placeholder_def split: list.splits if_splits)
  have "length (dropWhile word_char cs) \<le> length cs"
    by (rule length_dropWhile_le)
  with d s show ?thesis by simp
qed

text \<open>
  \<^verbatim>\<open>re.sub(r"\{(\w+)\}", r"\1", name)\<close>: the string is scanned from the left; a match is
  replaced by its group and the scan goes on behind it.
\<close>

function sub_placeholders :: "string \<Rightarrow> string" where
  "sub_placeholders [] = []"
| "sub_placeholders (c # cs) =
     (case match_placeholder (c # cs) of
        Some (w, r) \<Rightarrow> w @ sub_placeholders r
      | None \<Rightarrow> c # sub_placeholders cs)"
  by pat_completeness auto
termination
  by (relation "measure length") (auto dest: match_placeholder_shorter)

definition sub_non_alnum :: "string \<Rightarrow> string" where
  \<comment> \<open>\<^verbatim>\<open>re.sub(r"[^a-zA-Z0-9_]", "_", name)\<close>\<close>
  "sub_non_alnum s = map (\<lambda>c. if ascii_alnum c \<or> c = CHR ''_'' then c else CHR ''_'') s"

text \<open>\<^verbatim>\<open>re.sub(r"_+", "_", name)\<close>: every maximal run of underscores becomes one.\<close>

function collapse_underscores :: "string \<Rightarrow> string" where
  "collapse_underscores [] = []"
| "collapse_underscores (c # cs) =
     (if c = CHR ''_''
      then CHR ''_'' # collapse_underscores (dropWhile (\<lambda>d. d = CHR ''_'') cs)
      else c # collapse_underscores cs)"
  by pat_completeness auto
termination
  by (relation "measure length") (auto simp: length_dropWhile_le less_Suc_eq_le)

definition lstrip :: "char \<Rightarrow> string \<Rightarrow> string" where
  "lstrip x s = dropWhile (\<lambda>c. c = x) s"

definition rstrip :: "char \<Rightarrow> string \<Rightarrow> string" where
  \<comment> \<open>\<^verbatim>\<open>s.rstrip(x)\<close> for a one-character \<^verbatim>\<open>x\<close>\<close>
  "rstrip x s = rev (dropWhile (\<lambda>c. c = x) (rev s))"

definition strip :: "char \<Rightarrow> string \<Rightarrow> string" where
  \<comment> \<open>\<^verbatim>\<open>s.strip(x)\<close> for a one-character \<^verbatim>\<open>x\<close>\<close>
  "strip x s = rstrip x (lstrip x s)"

definition upper_char :: "char \<Rightarrow> char" where
  "upper_char c =
     (let n = (of_char c :: nat) in if 97 \<le> n \<and> n \<le> 122 then char_of (n - 32) else c)"

definition upper :: "string \<Rightarrow> string" where
  \<comment> \<open>\<^verbatim>\<open>s.upper()\<close> on ASCII; the converter only calls it on the seven lower-case method names\<close>
  "upper s = map upper_char s"

section \<open>Tool names\<close>

definition sanitize_tool_name :: "string \<Rightarrow> string" where
  "sanitize_tool_name name0 =
     (let name1 = sub_placeholders name0;
          name2 = sub_non_alnum name1;
          name3 = collapse_underscores name2
      in strip (CHR ''_'') name3)"

text \<open>
  \<^verbatim>\<open>generate_tool_name(method, path, operation_id)\<close>. The converter passes
  \<^verbatim>\<open>operation.get("operationId")\<close>, any document value: a false one (\<^verbatim>\<open>None\<close>, the empty
  string) selects the synthesized name, a true string is sanitized, and \<^verbatim>\<open>re.sub\<close> raises
  \<^verbatim>\<open>TypeError\<close> on a true value that is not a string.
\<close>

definition generate_tool_name :: "string \<Rightarrow> string \<Rightarrow> json \<Rightarrow> exn + string" where
  "generate_tool_name method path operation_id =
     (if truthy operation_id
      then (case operation_id of
              JStr s \<Rightarrow> Inr (sanitize_tool_name s)
            | _ \<Rightarrow> Inl TypeError)
      else Inr (upper method @ ''__'' @ sanitize_tool_name path))"

section \<open>The spec registry\<close>

datatype source_type = UPLOAD | URL | PATH

datatype validation_status = VALID | INVALID | PENDING

record spec_entry =
  name :: string
  source_type :: source_type
  raw_text :: string
  parsed_spec :: json
  enabled :: bool
  validation_status :: validation_status
  validation_errors :: "string list"
  base_url_override :: "string option"
  tool_names :: "string list"

text \<open>
  \<^verbatim>\<open>SpecRegistry\<close> holds two dicts keyed by spec name: the entries and, beside them, the
  generated ASGI applications. The type \<open>'app\<close> is the type of those applications.
  A method that mutates the registry returns the new registry; a method that raises
  returns the exception and leaves the registry as it was.
\<close>

record 'app registry =
  specs :: "string \<rightharpoonup> spec_entry"
  mcp_apps :: "string \<rightharpoonup> 'app"

definition empty_registry :: "'app registry" where
  "empty_registry = \<lparr>specs = Map.empty, mcp_apps = Map.empty\<rparr>"

definition exists :: "'app registry \<Rightarrow> string \<Rightarrow> bool" where
  "exists reg nm = (specs reg nm \<noteq> None)"

definition register ::
  "'app registry \<Rightarrow> string \<Rightarrow> string \<Rightarrow> json \<Rightarrow> source_type \<Rightarrow> string option \<Rightarrow>
   validation_status \<Rightarrow> string list option \<Rightarrow> exn + 'app registry" where
  "register reg nm raw parsed src ovr vstatus verrors =
     (if exists reg nm then Inl (ValueError (''Spec '' @ [CHR 0x27] @ nm @ [CHR 0x27] @ '' already exists''))
      else Inr (reg\<lparr>specs := (specs reg)(nm \<mapsto>
             \<lparr>name = nm, source_type = src, raw_text = raw, parsed_spec = parsed,
              enabled = False, validation_status = vstatus,
              validation_errors = (case verrors of None \<Rightarrow> [] | Some es \<Rightarrow> es),
              base_url_override = ovr, tool_names = []\<rparr>)\<rparr>))"

definition get :: "'app registry \<Rightarrow> string \<Rightarrow> spec_entry option" where
  "get reg nm = specs reg nm"

definition not_found :: "string \<Rightarrow> string" where
  \<comment> \<open>the message \<^verbatim>\<open>f"Spec '{name}' not found"\<close>\<close>
  "not_found nm = ''Spec '' @ [CHR 0x27] @ nm @ [CHR 0x27] @ '' not found''"

definition get_or_raise :: "'app registry \<Rightarrow> string \<Rightarrow> exn + spec_entry" where
  "get_or_raise reg nm =
     (case get reg nm of None \<Rightarrow> Inl (KeyError (not_found nm)) | Some entry \<Rightarrow> Inr entry)"

text \<open>
  \<^verbatim>\<open>enable\<close> and \<^verbatim>\<open>disable\<close> assign to the fields of the entry object that the dict holds
  under \<^verbatim>\<open>name\<close>, so the stored entry changes.
\<close>

definition enable :: "'app registry \<Rightarrow> string \<Rightarrow> 'app \<Rightarrow> string list \<Rightarrow> exn + 'app registry" where
  "enable reg nm mcp_http_app tools =
     (case get_or_raise reg nm of
        Inl e \<Rightarrow> Inl e
      | Inr entry \<Rightarrow>
          Inr (reg\<lparr>specs := (specs reg)(nm \<mapsto> entry\<lparr>enabled := True, tool_names := tools\<rparr>),
                   mcp_apps := (mcp_apps reg)(nm \<mapsto> mcp_http_app)\<rparr>))"

definition disable :: "'app registry \<Rightarrow> string \<Rightarrow> exn + 'app registry" where
  "disable reg nm =
     (case get_or_raise reg nm of
        Inl e \<Rightarrow> Inl e
      | Inr entry \<Rightarrow>
          Inr (reg\<lparr>specs := (specs reg)(nm \<mapsto> entry\<lparr>enabled := False, tool_names := []\<rparr>),
                   mcp_apps := (mcp_apps reg)(nm := None)\<rparr>))"

definition delete :: "'app registry \<Rightarrow> string \<Rightarrow> exn + 'app registry" where
  "delete reg nm =
     (if \<not> exists reg nm then Inl (KeyError (not_found nm))
      else (case disable reg nm of
              Inl e \<Rightarrow> Inl e
            | Inr reg' \<Rightarrow> Inr (reg'\<lparr>specs := (specs reg')(nm := None)\<rparr>)))"

definition get_mcp_app :: "'app registry \<Rightarrow> string \<Rightarrow> 'app option" where
  "get_mcp_app reg nm =
     (case get reg nm of
        None \<Rightarrow> None
      | Some entry \<Rightarrow> if \<not> enabled entry then None else mcp_apps reg nm)"

definition is_enabled :: "'app registry \<Rightarrow> string \<Rightarrow> bool" where
  "is_enabled reg nm = (case get reg nm of None \<Rightarrow> False | Some entry \<Rightarrow> enabled entry)"

section \<open>The dispatcher\<close>

text \<open>
  The ASGI scope, as far as \<^verbatim>\<open>MCPDispatcher.__call__\<close> reads it: \<^verbatim>\<open>scope["type"]\<close>, and the
  optional keys \<^verbatim>\<open>path\<close> and \<^verbatim>\<open>root_path\<close>.
\<close>

record scope =
  scope_type :: string
  scope_path :: "string option"
  scope_root_path :: "string option"

text \<open>
  What one call of the dispatcher does: nothing, for a scope that is neither HTTP nor
  websocket; \<^verbatim>\<open>_send_error(send, status, message)\<close>, which sends the response start with the
  status and the body \<^verbatim>\<open>{"detail": message}\<close>; or, after \<^verbatim>\<open>ensure_started\<close>, the call of the
  spec's application with the rewritten path and root path.
\<close>

datatype 'app dispatched =
    Ignored
  | SendError nat string
  | Forwarded string 'app string string

definition startswith :: "string \<Rightarrow> string \<Rightarrow> bool" where
  "startswith s p = (take (length p) s = p)"

definition split_once :: "char \<Rightarrow> string \<Rightarrow> string list" where
  \<comment> \<open>\<^verbatim>\<open>s.split(x, 1)\<close> for a one-character \<^verbatim>\<open>x\<close>\<close>
  "split_once x s =
     (case dropWhile (\<lambda>c. c \<noteq> x) s of
        [] \<Rightarrow> [s]
      | d # r \<Rightarrow> [takeWhile (\<lambda>c. c \<noteq> x) s, r])"

definition path_parts :: "scope \<Rightarrow> string list" where
  "path_parts sc =
     (let path0 = (case scope_path sc of None \<Rightarrow> ''/'' | Some p \<Rightarrow> p);
          root = (case scope_root_path sc of None \<Rightarrow> [] | Some r \<Rightarrow> r);
          path1 = (if root \<noteq> [] \<and> startswith path0 root then drop (length root) path0 else path0);
          path2 = (if \<not> startswith path1 ''/'' then ''/'' @ path1 else path1)
      in split_once (CHR ''/'') (strip (CHR ''/'') path2))"

definition not_enabled :: "string \<Rightarrow> string" where
  "not_enabled nm = ''Spec '' @ [CHR 0x27] @ nm @ [CHR 0x27] @ '' is not enabled for MCP exposure''"

definition name_required :: string where
  "name_required = ''Spec name required in path: /mcp/{spec_name}/...''"

definition dispatch :: "'app registry \<Rightarrow> scope \<Rightarrow> 'app dispatched" where
  "dispatch reg sc =
     (if scope_type sc \<noteq> ''http'' \<and> scope_type sc \<noteq> ''websocket'' then Ignored
      else
        (case path_parts sc of
           [] \<Rightarrow> SendError 404 name_required
         | spec_name # rest \<Rightarrow>
             if spec_name = [] then SendError 404 name_required
             else
               (case get_mcp_app reg spec_name of
                  None \<Rightarrow>
                    (case get reg spec_name of
                       None \<Rightarrow> SendError 404 (not_found spec_name)
                     | Some entry \<Rightarrow> SendError 404 (not_enabled spec_name))
                | Some mcp_app \<Rightarrow>
                    Forwarded spec_name mcp_app
                      (''/'' @ (case rest of [] \<Rightarrow> [] | r # _ \<Rightarrow> r))
                      ((case scope_root_path sc of None \<Rightarrow> [] | Some r \<Rightarrow> r) @ ''/'' @ spec_name))))"

section \<open>The converter\<close>

text \<open>Sequencing of steps that may raise: the first exception ends the computation.\<close>

fun and_then :: "exn + 'a \<Rightarrow> ('a \<Rightarrow> exn + 'b) \<Rightarrow> exn + 'b" where
  "and_then (Inl e) f = Inl e"
| "and_then (Inr x) f = f x"

definition no_server_url :: string where
  "no_server_url = ''No server URL found in spec and no base_url_override provided''"

text \<open>
  \<^verbatim>\<open>servers[0]\<close> for a true \<^verbatim>\<open>servers\<close>: the first element of a list, the first character of
  a string; a dict with string keys has no key \<^verbatim>\<open>0\<close>, and a number is not subscriptable.
\<close>

fun first_item :: "json \<Rightarrow> exn + json" where
  "first_item (JList (x # xs)) = Inr x"
| "first_item (JStr (c # cs)) = Inr (JStr [c])"
| "first_item (JDict kvs) = Inl (KeyError ''0'')"
| "first_item _ = Inl TypeError"

definition resolve_base_url :: "json \<Rightarrow> string option \<Rightarrow> exn + string" where
  "resolve_base_url spec override =
     (if (case override of None \<Rightarrow> False | Some u \<Rightarrow> u \<noteq> [])
      then Inr (rstrip (CHR ''/'') (case override of None \<Rightarrow> [] | Some u \<Rightarrow> u))
      else
        and_then (py_get spec ''servers'' (JList [])) (\<lambda>servers.
          if \<not> truthy servers then Inl (OpenAPIConversionError no_server_url)
          else
            and_then (first_item servers) (\<lambda>server0.
              case server0 of
                JDict kvs \<Rightarrow>
                  (case map_of kvs ''url'' of
                     None \<Rightarrow> Inl (OpenAPIConversionError no_server_url)
                   | Some (JStr url) \<Rightarrow> Inr (rstrip (CHR ''/'') url)
                   | Some _ \<Rightarrow> Inl AttributeError)
              | _ \<Rightarrow> Inl (OpenAPIConversionError no_server_url))))"

subsection \<open>Input models\<close>

datatype py_type = PyStr | PyInt | PyFloat | PyBool | PyList | PyDict | PyAny

definition OPENAPI_TYPE_MAP :: "(string \<times> py_type) list" where
  "OPENAPI_TYPE_MAP =
     [(''string'', PyStr), (''integer'', PyInt), (''number'', PyFloat),
      (''boolean'', PyBool), (''array'', PyList), (''object'', PyDict)]"

text \<open>
  \<^verbatim>\<open>OPENAPI_TYPE_MAP.get(openapi_type, Any)\<close> hashes its key: a list or a dict is
  unhashable and raises \<^verbatim>\<open>TypeError\<close>; any other value that is not one of the six strings
  gives \<^verbatim>\<open>Any\<close>.
\<close>

definition openapi_type_to_python :: "json \<Rightarrow> exn + py_type" where
  "openapi_type_to_python schema =
     and_then (py_get schema ''type'' (JStr ''string'')) (\<lambda>openapi_type.
       case openapi_type of
         JStr t \<Rightarrow> Inr (case map_of OPENAPI_TYPE_MAP t of Some ty \<Rightarrow> ty | None \<Rightarrow> PyAny)
       | JList _ \<Rightarrow> Inl TypeError
       | JDict _ \<Rightarrow> Inl TypeError
       | _ \<Rightarrow> Inr PyAny)"

text \<open>
  One entry of the \<^verbatim>\<open>fields\<close> dict, \<^verbatim>\<open>(python_type, FieldInfo(default, description))\<close>:
  the base type, whether the annotation is \<^verbatim>\<open>python_type | None\<close>, whether the default
  is \<^verbatim>\<open>...\<close> (required) rather than \<^verbatim>\<open>None\<close>, and the description.
\<close>

record field =
  field_type :: py_type
  field_nullable :: bool
  field_required :: bool
  field_description :: json

text \<open>
  \<^verbatim>\<open>d[k] = v\<close> on an insertion-ordered dict: an existing key keeps its place and takes the
  new value, a new key goes to the end.
\<close>

fun dict_set :: "'k \<Rightarrow> 'v \<Rightarrow> ('k \<times> 'v) list \<Rightarrow> ('k \<times> 'v) list" where
  "dict_set k v [] = [(k, v)]"
| "dict_set k v (p # ps) = (if fst p = k then (k, v) # ps else p # dict_set k v ps)"

text \<open>
  \<^verbatim>\<open>path_params + operation.get("parameters", [])\<close>, then iterated: two lists concatenate,
  two strings concatenate and iterate as one-character strings, and every other pair of
  document values raises \<^verbatim>\<open>TypeError\<close>, from \<^verbatim>\<open>+\<close> or, for two numbers, from the iteration
  of their sum.
\<close>

fun merged_params :: "json \<Rightarrow> json \<Rightarrow> exn + json list" where
  "merged_params (JList xs) (JList ys) = Inr (xs @ ys)"
| "merged_params (JStr s) (JStr t) = Inr (map (\<lambda>c. JStr [c]) (s @ t))"
| "merged_params _ _ = Inl TypeError"

text \<open>
  The body of the loop over \<^verbatim>\<open>all_params\<close>, up to its last statement: \<open>None\<close> when the
  parameter is skipped (\<^verbatim>\<open>continue\<close>), else the key \<^verbatim>\<open>param_name\<close> and the value that
  \<^verbatim>\<open>fields[param_name] = ...\<close> assigns.
\<close>

definition param_field :: "json \<Rightarrow> exn + (json \<times> field) option" where
  "param_field param =
     and_then (py_get param ''name'' JNull) (\<lambda>param_name.
       if \<not> truthy param_name then Inr None
       else
         and_then (py_get param ''in'' JNull) (\<lambda>param_in.
           if param_in \<noteq> JStr ''path'' \<and> param_in \<noteq> JStr ''query'' then Inr None
           else
             and_then (py_get param ''schema'' (JDict [])) (\<lambda>schema.
             and_then (openapi_type_to_python schema) (\<lambda>python_type.
             and_then (py_get param ''required'' (JBool False)) (\<lambda>required.
             and_then (py_get param ''description'' (JStr [])) (\<lambda>description.
               let is_required = (param_in = JStr ''path'' \<or> truthy required)
               in Inr (Some (param_name,
                    \<lparr>field_type = python_type, field_nullable = \<not> is_required,
                     field_required = is_required, field_description = description\<rparr>))))))))"

text \<open>
  The assignment. The state is the \<^verbatim>\<open>fields\<close> dict and a flag that a key which is not a
  string went into it: such a key (a true number) is hashable, so the assignment succeeds,
  and \<^verbatim>\<open>create_model(model_name, **fields)\<close> raises \<^verbatim>\<open>TypeError\<close> at the end. A true list or
  dict as the name is unhashable and raises at the assignment.
\<close>

definition add_param ::
  "json \<Rightarrow> (string \<times> field) list \<times> bool \<Rightarrow> exn + (string \<times> field) list \<times> bool" where
  "add_param param st =
     and_then (param_field param) (\<lambda>r.
       case r of
         None \<Rightarrow> Inr st
       | Some (JStr n, fld) \<Rightarrow> Inr (dict_set n fld (fst st), snd st)
       | Some (JList _, fld) \<Rightarrow> Inl TypeError
       | Some (JDict _, fld) \<Rightarrow> Inl TypeError
       | Some (_, fld) \<Rightarrow> Inr (fst st, True))"

fun add_params ::
  "json list \<Rightarrow> (string \<times> field) list \<times> bool \<Rightarrow> exn + (string \<times> field) list \<times> bool" where
  "add_params [] st = Inr st"
| "add_params (param # params) st = and_then (add_param param st) (add_params params)"

record input_model =
  model_name :: string
  model_fields :: "(string \<times> field) list"

definition build_input_model :: "json \<Rightarrow> json \<Rightarrow> string \<Rightarrow> exn + input_model" where
  "build_input_model operation path_params tool_name =
     and_then (py_get operation ''parameters'' (JList [])) (\<lambda>op_params.
     and_then (merged_params path_params op_params) (\<lambda>all_params.
     and_then (add_params all_params ([], False)) (\<lambda>st.
     and_then (py_get operation ''requestBody'' (JDict [])) (\<lambda>request_body.
     and_then (py_get request_body ''content'' (JDict [])) (\<lambda>content.
     and_then (py_get content ''application/json'' (JDict [])) (\<lambda>json_content.
     and_then
       (if truthy json_content
        then
          and_then (py_get request_body ''required'' (JBool False)) (\<lambda>body_required.
          and_then (py_get request_body ''description'' (JStr ''JSON request body'')) (\<lambda>body_description.
            Inr (dict_set ''body''
                   \<lparr>field_type = PyDict, field_nullable = \<not> truthy body_required,
                    field_required = truthy body_required,
                    field_description = body_description\<rparr> (fst st))))
        else Inr (fst st)) (\<lambda>fields.
       if snd st then Inl TypeError
       else Inr \<lparr>model_name = tool_name @ ''Input'', model_fields = fields\<rparr>)))))))"

subsection \<open>Building the server\<close>

text \<open>
  What \<^verbatim>\<open>create_tool_handler\<close> closes over, and what \<^verbatim>\<open>mcp.tool(name, description)\<close>
  registers. \<^verbatim>\<open>FastMCP\<close> and pydantic are libraries: \<^verbatim>\<open>create_model\<close> is taken to record
  its arguments, and the server to hold the tools registered on it. A set of parameter
  names is the list of its members.
\<close>

record handler =
  handler_method :: string
  handler_path :: string
  path_params_names :: "json list"
  query_param_names :: "json list"
  has_body :: bool
  handler_base_url :: string

record tool =
  tool_name :: string
  tool_description :: json
  tool_input :: input_model
  tool_handler :: handler

record fastmcp =
  server_name :: string
  server_tools :: "tool list"

text \<open>
  Modelled from the spec: \<^verbatim>\<open>mcp.tool(name, description)(tool_fn)\<close> is a call into the
  \<^verbatim>\<open>fastmcp\<close> library, whose code is not part of the program. The specification says of it
  that duplicate tool names are neither deduplicated nor rejected and that the last
  registration for a name wins inside the sub-application: the server keeps one tool for
  a name, and a later registration replaces it.
\<close>

fun register_tool :: "tool \<Rightarrow> tool list \<Rightarrow> tool list" where
  "register_tool t [] = [t]"
| "register_tool t (u # us) =
     (if tool_name u = tool_name t then t # us else u # register_tool t us)"

text \<open>
  \<^verbatim>\<open>{p["name"] for p in all_params if p.get("in") == kind and "name" in p}\<close>: adding a
  list or a dict to the set raises \<^verbatim>\<open>TypeError\<close>.
\<close>

fun names_of_kind :: "string \<Rightarrow> json list \<Rightarrow> exn + json list" where
  "names_of_kind kind [] = Inr []"
| "names_of_kind kind (p # ps) =
     and_then (py_get p ''in'' JNull) (\<lambda>param_in.
       case (if param_in = JStr kind then (case p of JDict kvs \<Rightarrow> map_of kvs ''name'' | _ \<Rightarrow> None)
             else None) of
         None \<Rightarrow> names_of_kind kind ps
       | Some (JList _) \<Rightarrow> Inl TypeError
       | Some (JDict _) \<Rightarrow> Inl TypeError
       | Some n \<Rightarrow> and_then (names_of_kind kind ps) (\<lambda>ns. Inr (n # ns)))"

definition substring :: "string \<Rightarrow> string \<Rightarrow> bool" where
  \<comment> \<open>\<^verbatim>\<open>k in s\<close> on strings\<close>
  "substring k s = (\<exists>i \<in> set (upt 0 (Suc (length s))). take (length k) (drop i s) = k)"

text \<open>
  \<^verbatim>\<open>"application/json" in content\<close>: a key of a dict, an element of a list, a substring of
  a string; any other document value is not iterable.
\<close>

fun contains_str :: "json \<Rightarrow> string \<Rightarrow> exn + bool" where
  "contains_str (JDict kvs) k = Inr (map_of kvs k \<noteq> None)"
| "contains_str (JList xs) k = Inr (JStr k \<in> set xs)"
| "contains_str (JStr s) k = Inr (substring k s)"
| "contains_str _ k = Inl TypeError"

text \<open>\<^verbatim>\<open>a or b\<close> on document values.\<close>

definition py_or :: "json \<Rightarrow> json \<Rightarrow> json" where
  "py_or a b = (if truthy a then a else b)"

text \<open>
  The body of the loop over the methods, for one method of one path item: \<open>None\<close> when
  the method is skipped (\<^verbatim>\<open>continue\<close>), else the tool that is registered, whose name is
  appended to \<^verbatim>\<open>tool_names\<close>.
\<close>

definition convert_operation :: "string \<Rightarrow> string \<Rightarrow> json \<Rightarrow> json \<Rightarrow> string \<Rightarrow> exn + tool option" where
  "convert_operation base_url path path_item path_level_params method =
     (case (case path_item of JDict kvs \<Rightarrow> map_of kvs method | _ \<Rightarrow> None) of
        None \<Rightarrow> Inr None
      | Some operation \<Rightarrow>
          if \<not> is_dict operation then Inr None
          else
            and_then (py_get operation ''operationId'' JNull) (\<lambda>operation_id.
            and_then (generate_tool_name method path operation_id) (\<lambda>tname.
            and_then (build_input_model operation path_level_params tname) (\<lambda>inp.
            and_then (py_get operation ''parameters'' (JList [])) (\<lambda>op_params.
            and_then (merged_params path_level_params op_params) (\<lambda>all_params.
            and_then (names_of_kind ''path'' all_params) (\<lambda>path_param_names.
            and_then (names_of_kind ''query'' all_params) (\<lambda>query_names.
            and_then (py_get operation ''requestBody'' (JDict [])) (\<lambda>request_body.
            and_then (py_get request_body ''content'' (JDict [])) (\<lambda>content.
            and_then (contains_str content ''application/json'') (\<lambda>body.
            and_then (py_get operation ''summary'' JNull) (\<lambda>summary.
            and_then (py_get operation ''description'' JNull) (\<lambda>description.
              Inr (Some
                \<lparr>tool_name = tname,
                 tool_description = py_or (py_or summary description) (JStr []),
                 tool_input = inp,
                 tool_handler =
                   \<lparr>handler_method = method, handler_path = path,
                    path_params_names = path_param_names, query_param_names = query_names,
                    has_body = body, handler_base_url = base_url\<rparr>\<rparr>))))))))))))))"

text \<open>
  The loop \<^verbatim>\<open>for method in http_methods\<close>. \<^verbatim>\<open>http_methods\<close> is a set literal of seven
  strings, and the order in which Python iterates a set of strings is not fixed by the
  program (it follows the strings' hashes, which are salted per process). The order is
  therefore an input: \<open>methods\<close> is the list of the set's members in the order of
  iteration. The state of the loops is the server and \<^verbatim>\<open>tool_names\<close>.
\<close>

definition http_methods :: "string set" where
  "http_methods = {''get'', ''post'', ''put'', ''patch'', ''delete'', ''options'', ''head''}"

fun convert_methods ::
  "string list \<Rightarrow> string \<Rightarrow> string \<Rightarrow> json \<Rightarrow> json \<Rightarrow> fastmcp \<times> string list \<Rightarrow>
   exn + fastmcp \<times> string list" where
  "convert_methods [] base_url path path_item path_level_params st = Inr st"
| "convert_methods (method # methods) base_url path path_item path_level_params st =
     and_then (convert_operation base_url path path_item path_level_params method) (\<lambda>r.
       convert_methods methods base_url path path_item path_level_params
         (case r of
            None \<Rightarrow> st
          | Some t \<Rightarrow> ((fst st)\<lparr>server_tools := register_tool t (server_tools (fst st))\<rparr>,
                       snd st @ [tool_name t])))"

fun convert_paths ::
  "string list \<Rightarrow> string \<Rightarrow> (string \<times> json) list \<Rightarrow> fastmcp \<times> string list \<Rightarrow>
   exn + fastmcp \<times> string list" where
  "convert_paths methods base_url [] st = Inr st"
| "convert_paths methods base_url ((path, path_item) # items) st =
     (if \<not> is_dict path_item then convert_paths methods base_url items st
      else
        and_then (py_get path_item ''parameters'' (JList [])) (\<lambda>path_level_params.
        and_then (convert_methods methods base_url path path_item path_level_params st)
          (convert_paths methods base_url items)))"

definition build_mcp_server ::
  "string list \<Rightarrow> string \<Rightarrow> json \<Rightarrow> string option \<Rightarrow> exn + fastmcp \<times> string list" where
  "build_mcp_server methods spec_name spec override =
     and_then (resolve_base_url spec override) (\<lambda>base_url.
     and_then (py_get spec ''paths'' (JDict [])) (\<lambda>paths.
       case paths of
         JDict items \<Rightarrow>
           convert_paths methods base_url items (\<lparr>server_name = spec_name, server_tools = []\<rparr>, [])
       | _ \<Rightarrow> Inl AttributeError))"

text \<open>\<^verbatim>\<open>mcp.http_app()\<close>: the ASGI application that serves the tools of the server.\<close>

datatype mcp_app = HttpApp fastmcp

definition build_mcp_http_app ::
  "string list \<Rightarrow> string \<Rightarrow> json \<Rightarrow> string option \<Rightarrow> exn + mcp_app \<times> string list" where
  "build_mcp_http_app methods spec_name spec override =
     and_then (build_mcp_server methods spec_name spec override) (\<lambda>r. Inr (HttpApp (fst r), snd r))"

section \<open>Rendering values: \<^verbatim>\<open>str\<close> and \<^verbatim>\<open>repr\<close>\<close>

function str_nat :: "nat \<Rightarrow> string" where
  "str_nat n = (if n < 10 then [char_of (48 + n)] else str_nat (n div 10) @ [char_of (48 + n mod 10)])"
  by pat_completeness auto
termination
  by (relation "measure id") auto

definition str_int :: "int \<Rightarrow> string" where
  "str_int i = (if i < 0 then CHR ''-'' # str_nat (nat (- i)) else str_nat (nat i))"

definition hex_digit :: "nat \<Rightarrow> char" where
  "hex_digit n = (if n < 10 then char_of (48 + n) else char_of (87 + n))"

definition repr_char :: "char \<Rightarrow> char \<Rightarrow> string" where
  "repr_char quote c =
     (let n = (of_char c :: nat)
      in if c = quote \<or> c = CHR 0x5C then [CHR 0x5C, c]
         else if n = 9 then [CHR 0x5C, CHR ''t'']
         else if n = 10 then [CHR 0x5C, CHR ''n'']
         else if n = 13 then [CHR 0x5C, CHR ''r'']
         else if n < 32 \<or> n = 127 \<or> (128 \<le> n \<and> n \<le> 160) \<or> n = 173
           then [CHR 0x5C, CHR ''x'', hex_digit (n div 16), hex_digit (n mod 16)]
         else [c])"

definition repr_str :: "string \<Rightarrow> string" where
  "repr_str s =
     (let quote = (if CHR 0x27 \<in> set s \<and> CHR 0x22 \<notin> set s then CHR 0x22 else CHR 0x27)
      in quote # concat (map (repr_char quote) s) @ [quote])"

fun join :: "string \<Rightarrow> string list \<Rightarrow> string" where
  "join sep [] = []"
| "join sep [x] = x"
| "join sep (x # y # ys) = x @ sep @ join sep (y # ys)"

fun py_repr :: "json \<Rightarrow> string" where
  "py_repr JNull = ''None''"
| "py_repr (JBool b) = (if b then ''True'' else ''False'')"
| "py_repr (JInt i) = str_int i"
| "py_repr (JFloat r) = r"
| "py_repr (JStr s) = repr_str s"
| "py_repr (JList xs) = ''['' @ join '', '' (map py_repr xs) @ '']''"
| "py_repr (JDict kvs) =
     ''{'' @ join '', '' (map (\<lambda>kv. repr_str (fst kv) @ '': '' @ py_repr (snd kv)) kvs) @ ''}''"

definition py_str :: "json \<Rightarrow> string" where
  "py_str v = (case v of JStr s \<Rightarrow> s | _ \<Rightarrow> py_repr v)"

section \<open>The control plane\<close>

text \<open>
  \<^verbatim>\<open>validate_openapi_spec\<close>, on the dict that \<^verbatim>\<open>detect_and_parse\<close> returns (it refuses a
  document that is not a dict).
\<close>

definition validate_openapi_spec :: "(string \<times> json) list \<Rightarrow> string list" where
  "validate_openapi_spec spec =
     (case map_of spec ''openapi'' of
        None \<Rightarrow> [''Missing required field '' @ [CHR 0x27] @ ''openapi'' @ [CHR 0x27]]
      | Some (JStr version) \<Rightarrow>
          if \<not> startswith version ''3.''
          then [''Only OpenAPI 3.x is supported, got '' @ [CHR 0x27] @ version @ [CHR 0x27]]
          else []
      | Some _ \<Rightarrow> [''Field '' @ [CHR 0x27] @ ''openapi'' @ [CHR 0x27] @ '' must be a string''])
     @
     (case map_of spec ''paths'' of
        None \<Rightarrow> [''Missing required field '' @ [CHR 0x27] @ ''paths'' @ [CHR 0x27]]
      | Some (JDict _) \<Rightarrow> []
      | Some _ \<Rightarrow> [''Field '' @ [CHR 0x27] @ ''paths'' @ [CHR 0x27] @ '' must be an object''])"

text \<open>
  The handlers of \<^verbatim>\<open>main.py\<close> on the global registry. \<^verbatim>\<open>upload_spec\<close> is given the uploaded
  text and the dict it parses to (an upload that does not parse answers 400 and registers
  nothing). \<^verbatim>\<open>disable_spec\<close> and \<^verbatim>\<open>delete_spec\<close> first stop the lifespan of the name, which
  does not touch the registry.
\<close>

definition upload_spec ::
  "'app registry \<Rightarrow> string \<Rightarrow> string \<Rightarrow> (string \<times> json) list \<Rightarrow> string option \<Rightarrow> exn + 'app registry" where
  "upload_spec reg nm content parsed override =
     (if exists reg nm
      then Inl (HTTPException 409 (''Spec '' @ [CHR 0x27] @ nm @ [CHR 0x27] @ '' already exists''))
      else
        (let errors = validate_openapi_spec parsed
         in register reg nm content (JDict parsed) UPLOAD override
              (if errors \<noteq> [] then INVALID else VALID) (Some errors)))"

definition cannot_enable :: "string \<Rightarrow> string list \<Rightarrow> string" where
  "cannot_enable nm errors =
     ''Cannot enable spec '' @ [CHR 0x27] @ nm @ [CHR 0x27] @ '': validation errors: ''
       @ py_str (JList (map JStr errors))"

definition enable_spec :: "string list \<Rightarrow> mcp_app registry \<Rightarrow> string \<Rightarrow> exn + mcp_app registry" where
  "enable_spec methods reg nm =
     (case get reg nm of
        None \<Rightarrow> Inl (HTTPException 404 (not_found nm))
      | Some entry \<Rightarrow>
          if validation_status entry = INVALID
          then Inl (HTTPException 400 (cannot_enable nm (validation_errors entry)))
          else
            (case build_mcp_http_app methods nm (parsed_spec entry) (base_url_override entry) of
               Inl (OpenAPIConversionError msg) \<Rightarrow> Inl (HTTPException 400 msg)
             | Inl e \<Rightarrow> Inl e
             | Inr (mcp_http_app, tools) \<Rightarrow> enable reg nm mcp_http_app tools))"

definition disable_spec :: "'app registry \<Rightarrow> string \<Rightarrow> exn + 'app registry" where
  "disable_spec reg nm =
     (case disable reg nm of
        Inl (KeyError msg) \<Rightarrow> Inl (HTTPException 404 (not_found nm))
      | r \<Rightarrow> r)"

definition delete_spec :: "'app registry \<Rightarrow> string \<Rightarrow> exn + 'app registry" where
  "delete_spec reg nm =
     (case delete reg nm of
        Inl (KeyError msg) \<Rightarrow> Inl (HTTPException 404 (not_found nm))
      | r \<Rightarrow> r)"

text \<open>
  A history of the registry: calls of \<^verbatim>\<open>registry.register\<close> with any arguments, and of the
  four handlers. A call that raises leaves the registry as it was.
\<close>

datatype op =
    Register string string json source_type "string option" validation_status "string list option"
  | UploadSpec string string "(string \<times> json) list" "string option"
  | EnableSpec string
  | DisableSpec string
  | DeleteSpec string

fun step :: "string list \<Rightarrow> mcp_app registry \<Rightarrow> op \<Rightarrow> exn + mcp_app registry" where
  "step methods reg (Register nm raw parsed src override vstatus verrors) =
     register reg nm raw parsed src override vstatus verrors"
| "step methods reg (UploadSpec nm content parsed override) = upload_spec reg nm content parsed override"
| "step methods reg (EnableSpec nm) = enable_spec methods reg nm"
| "step methods reg (DisableSpec nm) = disable_spec reg nm"
| "step methods reg (DeleteSpec nm) = delete_spec reg nm"

definition apply_op :: "string list \<Rightarrow> mcp_app registry \<Rightarrow> op \<Rightarrow> mcp_app registry" where
  "apply_op methods reg x = (case step methods reg x of Inl e \<Rightarrow> reg | Inr reg' \<Rightarrow> reg')"

definition run :: "string list \<Rightarrow> op list \<Rightarrow> mcp_app registry" where
  "run methods ops = foldl (apply_op methods) empty_registry ops"

fun registers_pending :: "op \<Rightarrow> bool" where
  "registers_pending (Register nm raw parsed src override vstatus verrors) = (vstatus = PENDING)"
| "registers_pending _ = False"

definition listed_methods :: "string list" where
  \<comment> \<open>the members of \<^verbatim>\<open>http_methods\<close> in the order the literal lists them\<close>
  "listed_methods = [''get'', ''post'', ''put'', ''patch'', ''delete'', ''options'', ''head'']"

section \<open>Predicates of the statements\<close>

text \<open>
  What the registry keeps true of one name: an enabled entry is not invalid and has its
  application in the side table; a disabled entry has no tool names and no application;
  a name without an entry has no application.
\<close>

definition entry_ok :: "'app registry \<Rightarrow> string \<Rightarrow> bool" where
  "entry_ok reg nm =
     (case specs reg nm of
        None \<Rightarrow> mcp_apps reg nm = None
      | Some e \<Rightarrow>
          if enabled e then validation_status e \<noteq> INVALID \<and> mcp_apps reg nm \<noteq> None
          else tool_names e = [] \<and> mcp_apps reg nm = None)"

definition no_pending :: "'app registry \<Rightarrow> string \<Rightarrow> bool" where
  "no_pending reg nm =
     (case specs reg nm of None \<Rightarrow> True | Some e \<Rightarrow> validation_status e \<noteq> PENDING)"

definition doc_servers_only :: json where
  \<comment> \<open>the document \<^verbatim>\<open>{"servers": [{"url": "https://api.x.com"}]}\<close>\<close>
  "doc_servers_only = JDict [(''servers'', JList [JDict [(''url'', JStr ''https://api.x.com'')]])]"

text \<open>
  The URL of the first server a document declares: \<^verbatim>\<open>servers\<close> is a list, its first element
  is a dict, and that dict has the key \<^verbatim>\<open>url\<close>.
\<close>

definition declared_server_url :: "json \<Rightarrow> json option" where
  "declared_server_url spec =
     (case spec of
        JDict kvs \<Rightarrow>
          (case map_of kvs ''servers'' of
             Some (JList (JDict server # rest)) \<Rightarrow> map_of server ''url''
           | _ \<Rightarrow> None)
      | _ \<Rightarrow> None)"

definition servers_listed :: "(string \<times> json) list \<Rightarrow> bool" where
  \<comment> \<open>the key \<^verbatim>\<open>servers\<close> is absent or holds a list\<close>
  "servers_listed kvs =
     (case map_of kvs ''servers'' of None \<Rightarrow> True | Some (JList xs) \<Rightarrow> True | Some _ \<Rightarrow> False)"

text \<open>
  Replacing every maximal run of characters of a class by one underscore.
\<close>

function replace_runs :: "(char \<Rightarrow> bool) \<Rightarrow> string \<Rightarrow> string" where
  "replace_runs P [] = []"
| "replace_runs P (c # cs) =
     (if P c then CHR ''_'' # replace_runs P (dropWhile P cs) else c # replace_runs P cs)"
  by pat_completeness auto
termination
  by (relation "measure (\<lambda>(P, s). length s)") (auto simp: length_dropWhile_le less_Suc_eq_le)

text \<open>
  The sanitizing as the specification words it: placeholders become their bare names,
  every run of characters that are neither alphanumeric nor an underscore becomes a single
  underscore, and leading and trailing underscores are trimmed.
\<close>

definition spec_sanitize :: "string \<Rightarrow> string" where
  "spec_sanitize s =
     strip (CHR ''_'')
       (replace_runs (\<lambda>c. \<not> ascii_alnum c \<and> c \<noteq> CHR ''_'') (sub_placeholders s))"

text \<open>
  The sanitizing as the code does it, in one pass: the runs that become a single
  underscore are the runs of characters other than ASCII letters and digits, so an
  underscore belongs to a run.
\<close>

definition clean_name :: "string \<Rightarrow> string" where
  "clean_name s = strip (CHR ''_'') (replace_runs (\<lambda>c. \<not> ascii_alnum c) (sub_placeholders s))"

definition doc_slash :: json where
  \<comment> \<open>the document \<^verbatim>\<open>{"servers": [{"url": "https://api.x.com/v1/"}]}\<close>\<close>
  "doc_slash = JDict [(''servers'', JList [JDict [(''url'', JStr ''https://api.x.com/v1/'')]])]"





text \<open>
  The operations of a document in discovery order: path entries in the order of the
  document, and within one path entry the methods in the order \<open>methods\<close>; a method counts
  when the path item has it and its value is a dict. Each operation has the name that
  \<^verbatim>\<open>generate_tool_name\<close> gives it.
\<close>

definition path_operations :: "string list \<Rightarrow> string \<Rightarrow> json \<Rightarrow> (string \<times> string \<times> json) list" where
  "path_operations methods path path_item =
     (case path_item of
        JDict kvs \<Rightarrow>
          List.map_filter
            (\<lambda>m. case map_of kvs m of Some (JDict ops) \<Rightarrow> Some (path, m, JDict ops) | _ \<Rightarrow> None)
            methods
      | _ \<Rightarrow> [])"

definition discovered :: "string list \<Rightarrow> (string \<times> json) list \<Rightarrow> (string \<times> string \<times> json) list" where
  "discovered methods items =
     concat (map (\<lambda>(path, path_item). path_operations methods path path_item) items)"

definition operation_name :: "string \<times> string \<times> json \<Rightarrow> exn + string" where
  "operation_name x =
     (case x of (path, method, operation) \<Rightarrow>
        and_then (py_get operation ''operationId'' JNull) (generate_tool_name method path))"

definition doc_two_methods :: json where
  \<comment> \<open>one path with a \<^verbatim>\<open>get\<close> and a \<^verbatim>\<open>post\<close> operation, and a second path\<close>
  "doc_two_methods =
     JDict [(''servers'', JList [JDict [(''url'', JStr ''https://api.x.com'')]]),
            (''paths'', JDict
               [(''/pets'', JDict [(''get'', JDict [(''operationId'', JStr ''listPets'')]),
                                   (''post'', JDict [(''operationId'', JStr ''createPet'')])]),
                (''/owners'', JDict [(''get'', JDict [])])])]"

definition post_first :: "string list" where
  \<comment> \<open>the seven methods in another order of iteration\<close>
  "post_first = [''post'', ''get'', ''put'', ''patch'', ''delete'', ''options'', ''head'']"

definition doc_bad_parameter :: json where
  \<comment> \<open>a document that declares a server, with a parameter entry that is a string, not an object\<close>
  "doc_bad_parameter =
     JDict [(''openapi'', JStr ''3.0.0''),
            (''servers'', JList [JDict [(''url'', JStr ''https://api.x.com'')]]),
            (''paths'', JDict
               [(''/pets'', JDict [(''get'', JDict [(''parameters'', JList [JStr ''petId''])])])])]"

definition returned_names :: "exn + fastmcp \<times> string list \<Rightarrow> exn + string list" where
  \<comment> \<open>the second component of what \<^verbatim>\<open>build_mcp_server\<close> returns\<close>
  "returned_names r = (case r of Inl e \<Rightarrow> Inl e | Inr (srv, names) \<Rightarrow> Inr names)"

definition benign :: "exn + 'a \<Rightarrow> bool" where
  \<comment> \<open>the step does not raise the conversion error\<close>
  "benign r = (\<forall>msg. r \<noteq> Inl (OpenAPIConversionError msg))"

section \<open>URLs\<close>

text \<open>
  \<^verbatim>\<open>s.replace(old, new)\<close>: the occurrences of \<^verbatim>\<open>old\<close> are replaced from the left, without
  overlap; an empty \<^verbatim>\<open>old\<close> matches before every character and at the end.
\<close>

function replace_from :: "string \<Rightarrow> string \<Rightarrow> string \<Rightarrow> string" where
  "replace_from old new [] = []"
| "replace_from old new (c # cs) =
     (if old \<noteq> [] \<and> startswith (c # cs) old
      then new @ replace_from old new (drop (length old) (c # cs))
      else c # replace_from old new cs)"
  by pat_completeness auto
termination
  by (relation "measure (\<lambda>(old, new, s). length s)") auto

definition replace :: "string \<Rightarrow> string \<Rightarrow> string \<Rightarrow> string" where
  "replace old new s =
     (if old = [] then new @ concat (map (\<lambda>c. c # new) s) else replace_from old new s)"

definition endswith :: "string \<Rightarrow> string \<Rightarrow> bool" where
  "endswith s p = startswith (rev s) (rev p)"

text \<open>\<^verbatim>\<open>s.split(x)\<close> for a one-character \<^verbatim>\<open>x\<close>: the result is never empty.\<close>

fun split_all :: "char \<Rightarrow> string \<Rightarrow> string list" where
  "split_all x [] = [[]]"
| "split_all x (c # cs) =
     (if c = x then [] # split_all x cs
      else (case split_all x cs of y # ys \<Rightarrow> (c # y) # ys | [] \<Rightarrow> [[c]]))"

text \<open>
  \<^verbatim>\<open>urllib.parse\<close> of the standard library (CPython 3.11), on strings. Its one step that is
  not modelled is \<^verbatim>\<open>_check_bracketed_host\<close>, which validates an IP literal between brackets
  with the \<^verbatim>\<open>ipaddress\<close> module: \<open>chk host\<close> says whether it accepts the host. The check
  \<^verbatim>\<open>_checknetloc\<close> never raises on code points below 256.
\<close>

definition uses_relative :: "string list" where
  "uses_relative =
     ['''', ''ftp'', ''http'', ''gopher'', ''nntp'', ''imap'', ''wais'', ''file'', ''https'',
      ''shttp'', ''mms'', ''prospero'', ''rtsp'', ''rtsps'', ''rtspu'', ''sftp'', ''svn'',
      ''svn+ssh'', ''ws'', ''wss'']"

definition uses_netloc :: "string list" where
  "uses_netloc =
     ['''', ''ftp'', ''http'', ''gopher'', ''nntp'', ''telnet'', ''imap'', ''wais'', ''file'',
      ''mms'', ''https'', ''shttp'', ''snews'', ''prospero'', ''rtsp'', ''rtsps'', ''rtspu'',
      ''rsync'', ''svn'', ''svn+ssh'', ''sftp'', ''nfs'', ''git'', ''git+ssh'', ''ws'', ''wss'']"

definition uses_params :: "string list" where
  "uses_params =
     ['''', ''ftp'', ''hdl'', ''prospero'', ''http'', ''imap'', ''https'', ''shttp'', ''rtsp'',
      ''rtsps'', ''rtspu'', ''sip'', ''sips'', ''mms'', ''sftp'', ''tel'']"

definition ascii_alpha :: "char \<Rightarrow> bool" where
  "ascii_alpha c = (let n = (of_char c :: nat) in (65 \<le> n \<and> n \<le> 90) \<or> (97 \<le> n \<and> n \<le> 122))"

definition scheme_char :: "char \<Rightarrow> bool" where
  \<comment> \<open>membership in \<^verbatim>\<open>scheme_chars\<close>: letters, digits and \<^verbatim>\<open>+-.\<close>\<close>
  "scheme_char c = (ascii_alnum c \<or> c = CHR ''+'' \<or> c = CHR ''-'' \<or> c = CHR ''.'')"

definition lower_char :: "char \<Rightarrow> char" where
  "lower_char c =
     (let n = (of_char c :: nat) in if 65 \<le> n \<and> n \<le> 90 then char_of (n + 32) else c)"

definition c0_or_space :: "char \<Rightarrow> bool" where
  \<comment> \<open>membership in \<^verbatim>\<open>_WHATWG_C0_CONTROL_OR_SPACE\<close>\<close>
  "c0_or_space c = ((of_char c :: nat) \<le> 32)"

definition unsafe_byte :: "char \<Rightarrow> bool" where
  \<comment> \<open>membership in \<^verbatim>\<open>_UNSAFE_URL_BYTES_TO_REMOVE\<close>: tab, carriage return, line feed\<close>
  "unsafe_byte c = (let n = (of_char c :: nat) in n = 9 \<or> n = 10 \<or> n = 13)"

definition netloc_end :: "char \<Rightarrow> bool" where
  "netloc_end c = (c = CHR ''/'' \<or> c = CHR ''?'' \<or> c = CHR ''#'')"

text \<open>
  \<^verbatim>\<open>urlsplit(url, scheme)\<close>: scheme, netloc, path, query and fragment.
\<close>

definition urlsplit ::
  "(string \<Rightarrow> bool) \<Rightarrow> string \<Rightarrow> string \<Rightarrow> exn + string \<times> string \<times> string \<times> string \<times> string" where
  "urlsplit chk url0 scheme0 =
     (let url1 = filter (\<lambda>c. \<not> unsafe_byte c) (dropWhile c0_or_space url0);
          scheme1 = filter (\<lambda>c. \<not> unsafe_byte c)
                      (rev (dropWhile c0_or_space (rev (dropWhile c0_or_space scheme0))));
          found = (url1 \<noteq> [] \<and> CHR '':'' \<in> set url1 \<and> ascii_alpha (hd url1) \<and>
                   (\<forall>c \<in> set (takeWhile (\<lambda>c. c \<noteq> CHR '':'') url1). scheme_char c));
          scheme = (if found then map lower_char (takeWhile (\<lambda>c. c \<noteq> CHR '':'') url1) else scheme1);
          url2 = (if found then tl (dropWhile (\<lambda>c. c \<noteq> CHR '':'') url1) else url1);
          slashes = (take 2 url2 = ''//'');
          netloc = (if slashes then takeWhile (\<lambda>c. \<not> netloc_end c) (drop 2 url2) else []);
          url3 = (if slashes then dropWhile (\<lambda>c. \<not> netloc_end c) (drop 2 url2) else url2);
          fragment = (if CHR ''#'' \<in> set url3 then tl (dropWhile (\<lambda>c. c \<noteq> CHR ''#'') url3) else []);
          url4 = takeWhile (\<lambda>c. c \<noteq> CHR ''#'') url3;
          query = (if CHR ''?'' \<in> set url4 then tl (dropWhile (\<lambda>c. c \<noteq> CHR ''?'') url4) else []);
          url5 = takeWhile (\<lambda>c. c \<noteq> CHR ''?'') url4
      in if (CHR ''['' \<in> set netloc \<and> CHR '']'' \<notin> set netloc) \<or>
            (CHR '']'' \<in> set netloc \<and> CHR ''['' \<notin> set netloc)
         then Inl (ValueError ''Invalid IPv6 URL'')
         else if CHR ''['' \<in> set netloc \<and> CHR '']'' \<in> set netloc \<and>
                 \<not> chk (takeWhile (\<lambda>c. c \<noteq> CHR '']'') (tl (dropWhile (\<lambda>c. c \<noteq> CHR ''['') netloc)))
         then Inl (ValueError ''invalid bracketed host'')
         else Inr (scheme, netloc, url5, query, fragment))"

text \<open>\<^verbatim>\<open>_splitparams(url)\<close>, called when the path has a semicolon.\<close>

definition splitparams :: "string \<Rightarrow> string \<times> string" where
  "splitparams url =
     (if CHR ''/'' \<in> set url
      then
        (let last_seg = rev (takeWhile (\<lambda>c. c \<noteq> CHR ''/'') (rev url));
             front = take (length url - length last_seg) url
         in if CHR '';'' \<notin> set last_seg then (url, [])
            else (front @ takeWhile (\<lambda>c. c \<noteq> CHR '';'') last_seg,
                  tl (dropWhile (\<lambda>c. c \<noteq> CHR '';'') last_seg)))
      else (takeWhile (\<lambda>c. c \<noteq> CHR '';'') url, tl (dropWhile (\<lambda>c. c \<noteq> CHR '';'') url)))"

definition urlparse ::
  "(string \<Rightarrow> bool) \<Rightarrow> string \<Rightarrow> string \<Rightarrow>
   exn + string \<times> string \<times> string \<times> string \<times> string \<times> string" where
  "urlparse chk url scheme0 =
     and_then (urlsplit chk url scheme0) (\<lambda>(scheme, netloc, path, query, fragment).
       if scheme \<in> set uses_params \<and> CHR '';'' \<in> set path
       then Inr (scheme, netloc, fst (splitparams path), snd (splitparams path), query, fragment)
       else Inr (scheme, netloc, path, [], query, fragment))"

definition urlunsplit :: "string \<times> string \<times> string \<times> string \<times> string \<Rightarrow> string" where
  "urlunsplit x =
     (case x of (scheme, netloc, url0, query, fragment) \<Rightarrow>
        (let url1 = (if netloc \<noteq> [] \<or> (scheme \<noteq> [] \<and> scheme \<in> set uses_netloc) \<or> take 2 url0 = ''//''
                     then ''//'' @ netloc @ (if url0 \<noteq> [] \<and> take 1 url0 \<noteq> ''/'' then ''/'' @ url0 else url0)
                     else url0);
             url2 = (if scheme \<noteq> [] then scheme @ '':'' @ url1 else url1);
             url3 = (if query \<noteq> [] then url2 @ ''?'' @ query else url2)
         in if fragment \<noteq> [] then url3 @ ''#'' @ fragment else url3))"

definition urlunparse :: "string \<times> string \<times> string \<times> string \<times> string \<times> string \<Rightarrow> string" where
  "urlunparse x =
     (case x of (scheme, netloc, url, params, query, fragment) \<Rightarrow>
        urlunsplit (scheme, netloc, (if params \<noteq> [] then url @ '';'' @ params else url), query, fragment))"

text \<open>The loop of \<^verbatim>\<open>urljoin\<close> over the segments, with \<^verbatim>\<open>resolved_path\<close> as its state.\<close>

fun resolve_segments :: "string list \<Rightarrow> string list \<Rightarrow> string list" where
  "resolve_segments [] resolved = resolved"
| "resolve_segments (seg # segs) resolved =
     resolve_segments segs
       (if seg = ''..'' then butlast resolved
        else if seg = ''.'' then resolved
        else resolved @ [seg])"

definition filter_inner :: "string list \<Rightarrow> string list" where
  \<comment> \<open>\<^verbatim>\<open>segments[1:-1] = filter(None, segments[1:-1])\<close>\<close>
  "filter_inner segs =
     (if length segs < 2 then segs
      else hd segs # filter (\<lambda>s. s \<noteq> []) (butlast (tl segs)) @ [last segs])"

definition urljoin :: "(string \<Rightarrow> bool) \<Rightarrow> string \<Rightarrow> string \<Rightarrow> exn + string" where
  "urljoin chk base url =
     (if base = [] then Inr url
      else if url = [] then Inr base
      else
        and_then (urlparse chk base []) (\<lambda>(bscheme, bnetloc, bpath, bparams, bquery, bfragment).
        and_then (urlparse chk url bscheme) (\<lambda>(scheme, netloc0, path, params, query, fragment).
          if scheme \<noteq> bscheme \<or> scheme \<notin> set uses_relative then Inr url
          else if scheme \<in> set uses_netloc \<and> netloc0 \<noteq> []
          then Inr (urlunparse (scheme, netloc0, path, params, query, fragment))
          else
            (let netloc = (if scheme \<in> set uses_netloc then bnetloc else netloc0)
             in if path = [] \<and> params = []
                then Inr (urlunparse (scheme, netloc, bpath, bparams,
                            (if query = [] then bquery else query), fragment))
                else
                  (let parts = split_all (CHR ''/'') bpath;
                       base_parts = (if last parts \<noteq> [] then butlast parts else parts);
                       segments = (if take 1 path = ''/'' then split_all (CHR ''/'') path
                                   else filter_inner (base_parts @ split_all (CHR ''/'') path));
                       resolved0 = resolve_segments segments [];
                       resolved = (if last segments = ''.'' \<or> last segments = ''..''
                                   then resolved0 @ [[]] else resolved0);
                       joined = join ''/'' resolved
                   in Inr (urlunparse (scheme, netloc, (if joined = [] then ''/'' else joined),
                             params, query, fragment)))))))"

text \<open>
  \<^verbatim>\<open>build_url_with_path_params\<close>; \<open>params\<close> lists the items of the dict in its order, and
  \<open>substitute\<close> is the loop over them that replaces each placeholder.
\<close>

definition substitute :: "string \<Rightarrow> (string \<times> json) list \<Rightarrow> string" where
  "substitute path params =
     foldl (\<lambda>p (key, v). replace (''{'' @ key @ ''}'') (py_str v) p) path params"

definition build_url_with_path_params ::
  "(string \<Rightarrow> bool) \<Rightarrow> string \<Rightarrow> string \<Rightarrow> (string \<times> json) list \<Rightarrow> exn + string" where
  "build_url_with_path_params chk base_url path params =
     (let resolved_path = substitute path params;
          base1 = (if \<not> endswith base_url ''/'' then base_url @ ''/'' else base_url);
          resolved1 = (if startswith resolved_path ''/'' then drop 1 resolved_path else resolved_path)
      in urljoin chk base1 resolved1)"

section \<open>The invocation handler\<close>

text \<open>
  The arguments of \<^verbatim>\<open>client.request\<close>, and what the handler reads of the response:
  \<^verbatim>\<open>response.status_code\<close>, the \<^verbatim>\<open>content-type\<close> header if there is one, \<^verbatim>\<open>response.text\<close>, and
  the value of \<^verbatim>\<open>response.json()\<close>, \<open>None\<close> when that call raises. The HTTP client is the
  function \<open>client\<close>; it returns the upstream response or raises (a timeout, a refused
  connection).
\<close>

record request =
  request_method :: string
  request_url :: string
  request_params :: "(string \<times> json) list option"
  request_json :: "json option"

record response =
  status_code :: int
  content_type_header :: "string option"
  response_text :: string
  response_json :: "json option"

definition handler_request ::
  "(string \<Rightarrow> bool) \<Rightarrow> handler \<Rightarrow> (string \<times> json) list \<Rightarrow> exn + request" where
  "handler_request chk h kwargs =
     (let path_params = filter (\<lambda>(k, v). JStr k \<in> set (path_params_names h)) kwargs;
          query_params = filter (\<lambda>(k, v). JStr k \<in> set (query_param_names h) \<and> v \<noteq> JNull) kwargs;
          body = (if has_body h then (case map_of kwargs ''body'' of Some b \<Rightarrow> b | None \<Rightarrow> JNull)
                  else JNull)
      in and_then (build_url_with_path_params chk (handler_base_url h) (handler_path h) path_params)
           (\<lambda>url. Inr \<lparr>request_method = upper (handler_method h), request_url = url,
                        request_params = (if query_params \<noteq> [] then Some query_params else None),
                        request_json = (if truthy body then Some body else None)\<rparr>))"

definition fallback :: "response \<Rightarrow> json" where
  "fallback r =
     JDict [(''text'', JStr (response_text r)),
            (''status_code'', JInt (status_code r)),
            (''content_type'', JStr (case content_type_header r of None \<Rightarrow> [] | Some c \<Rightarrow> c))]"

definition handler_result :: "response \<Rightarrow> json" where
  "handler_result r =
     (let content_type = (case content_type_header r of None \<Rightarrow> [] | Some c \<Rightarrow> c)
      in if substring ''application/json'' content_type
         then (case response_json r of Some v \<Rightarrow> v | None \<Rightarrow> fallback r)
         else fallback r)"

definition handler ::
  "(string \<Rightarrow> bool) \<Rightarrow> (request \<Rightarrow> exn + response) \<Rightarrow> handler \<Rightarrow> (string \<times> json) list \<Rightarrow> exn + json" where
  "handler chk client h kwargs =
     and_then (handler_request chk h kwargs) (\<lambda>req.
     and_then (client req) (\<lambda>r. Inr (handler_result r)))"






text \<open>
  Plain URLs: a host and path segments without the characters that \<^verbatim>\<open>urljoin\<close> gives a
  meaning to. A host has no control character or space, slash, question mark, hash or
  bracket; a segment has, besides, no colon and no semicolon, is not empty and is not a
  dot segment.
\<close>

definition host_char :: "char \<Rightarrow> bool" where
  "host_char c =
     ((of_char c :: nat) > 32 \<and> c \<noteq> CHR ''/'' \<and> c \<noteq> CHR ''?'' \<and> c \<noteq> CHR ''#'' \<and>
      c \<noteq> CHR ''['' \<and> c \<noteq> CHR '']'')"

definition seg_char :: "char \<Rightarrow> bool" where
  "seg_char c =
     ((of_char c :: nat) > 32 \<and> c \<noteq> CHR ''/'' \<and> c \<noteq> CHR ''?'' \<and> c \<noteq> CHR ''#'' \<and>
      c \<noteq> CHR '':'' \<and> c \<noteq> CHR '';'')"

definition plain_segment :: "string \<Rightarrow> bool" where
  "plain_segment s = (s \<noteq> [] \<and> s \<noteq> ''.'' \<and> s \<noteq> ''..'' \<and> list_all seg_char s)"

definition dir_path :: "string list \<Rightarrow> string" where
  \<comment> \<open>the path \<^verbatim>\<open>/d1/d2/...\<close> of the directories \<^verbatim>\<open>d1, d2, ...\<close>\<close>
  "dir_path dirs = concat (map (\<lambda>d. CHR ''/'' # d) dirs)"

section \<open>The lifespan manager\<close>

text \<open>
  \<^verbatim>\<open>LifespanManager\<close> runs on one asyncio event loop: a coroutine runs without interruption
  from one \<^verbatim>\<open>await\<close> that suspends it to the next, so the code between two such points is one
  step, and the loop chooses which coroutine takes the next step. The state is the three
  dicts of the manager, the \<^verbatim>\<open>asyncio.Event\<close> objects (an event is its index in \<open>events\<close>,
  the entry says whether it is set), the tasks made by \<^verbatim>\<open>asyncio.create_task\<close> (a task is its
  index in \<open>tasks\<close>) and the callers of \<^verbatim>\<open>ensure_started\<close>.
\<close>

datatype task_pc = Scheduled | InStartup | Serving | Failed | Crashed

record task =
  task_name :: string
  task_pc :: task_pc
  task_signalled :: bool

datatype caller_pc = NotCalled | Waiting nat | Returned | Raised exn

record loop =
  started :: "string \<rightharpoonup> nat"
  cleanup_events :: "string \<rightharpoonup> nat"
  initialized :: "string \<rightharpoonup> nat"
  events :: "bool list"
  tasks :: "task list"
  callers :: "(string \<times> caller_pc) list"

text \<open>
  \<^verbatim>\<open>await event.wait()\<close> returns at once when the event is set and suspends the caller
  otherwise.
\<close>

definition wait_event :: "nat \<Rightarrow> loop \<Rightarrow> caller_pc" where
  "wait_event e s = (if e < length (events s) \<and> events s ! e then Returned else Waiting e)"

text \<open>
  \<^verbatim>\<open>ensure_started\<close> called by the caller \<open>i\<close>, up to its \<^verbatim>\<open>await\<close>. There is no \<^verbatim>\<open>await\<close>
  between the test \<^verbatim>\<open>name in self._started\<close> and the assignment of the new task to
  \<^verbatim>\<open>self._started[name]\<close>. The cleanup event and the initialized event are new objects, and
  the new task is scheduled, not run.
\<close>

definition ensure_started :: "nat \<Rightarrow> string \<Rightarrow> loop \<Rightarrow> loop" where
  "ensure_started i nm s =
     (if started s nm \<noteq> None then
        (case initialized s nm of
           None \<Rightarrow> s\<lparr>callers := (callers s)[i := (nm, Raised (KeyError nm))]\<rparr>
         | Some e \<Rightarrow> s\<lparr>callers := (callers s)[i := (nm, wait_event e s)]\<rparr>)
      else
        (let c = length (events s);
             e = Suc c;
             t = length (tasks s)
         in s\<lparr>cleanup_events := (cleanup_events s)(nm \<mapsto> c),
              initialized := (initialized s)(nm \<mapsto> e),
              events := events s @ [False, False],
              tasks := tasks s @ [\<lparr>task_name = nm, task_pc = Scheduled, task_signalled = False\<rparr>],
              started := (started s)(nm \<mapsto> t),
              callers := (callers s)[i := (nm, Waiting e)]\<rparr>))"

text \<open>A suspended caller goes on, and \<^verbatim>\<open>ensure_started\<close> returns, once its event is set.\<close>

definition resume :: "nat \<Rightarrow> loop \<Rightarrow> loop" where
  "resume i s =
     (case callers s ! i of
        (nm, Waiting e) \<Rightarrow>
          if e < length (events s) \<and> events s ! e
          then s\<lparr>callers := (callers s)[i := (nm, Returned)]\<rparr> else s
      | _ \<Rightarrow> s)"

text \<open>
  \<^verbatim>\<open>run_lifespan\<close>, the body of the background task. What the lifespan of the application does
  is not in this program, so each step of the task comes with its outcome: the startup
  suspends and is not finished (\<open>Yields\<close>), the context is entered (\<open>Enters\<close>), an
  \<^verbatim>\<open>Exception\<close> is raised (\<open>Raises\<close>), or the task is cancelled or dies of an exception that
  \<^verbatim>\<open>except Exception\<close> does not catch (\<open>Aborts\<close>). \<^verbatim>\<open>self._initialized[name].set()\<close> looks the
  event up when it runs; without the entry it raises \<^verbatim>\<open>KeyError\<close>, in the handler too, and
  the task dies. A task that has entered the context waits for its cleanup event, which
  only \<^verbatim>\<open>stop\<close> sets.
\<close>

datatype outcome = Yields | Enters | Raises | Aborts

definition set_pc :: "nat \<Rightarrow> task_pc \<Rightarrow> loop \<Rightarrow> loop" where
  "set_pc t pc s = s\<lparr>tasks := (tasks s)[t := (tasks s ! t)\<lparr>task_pc := pc\<rparr>]\<rparr>"

definition signal :: "nat \<Rightarrow> task_pc \<Rightarrow> loop \<Rightarrow> loop" where
  "signal t pc s =
     (case initialized s (task_name (tasks s ! t)) of
        None \<Rightarrow> set_pc t Crashed s
      | Some e \<Rightarrow>
          s\<lparr>events := (events s)[e := True],
            tasks := (tasks s)[t := (tasks s ! t)\<lparr>task_pc := pc, task_signalled := True\<rparr>]\<rparr>)"

definition run_lifespan :: "nat \<Rightarrow> outcome \<Rightarrow> loop \<Rightarrow> loop" where
  "run_lifespan t out s =
     (if task_pc (tasks s ! t) = Scheduled \<or> task_pc (tasks s ! t) = InStartup then
        (case out of
           Yields \<Rightarrow> set_pc t InStartup s
         | Enters \<Rightarrow> signal t Serving s
         | Raises \<Rightarrow> signal t Failed s
         | Aborts \<Rightarrow> set_pc t Crashed s)
      else if task_pc (tasks s ! t) = Serving \<and> out = Aborts then set_pc t Crashed s
      else s)"

text \<open>
  What the event loop can do next: let a caller that has not called yet call
  \<^verbatim>\<open>ensure_started\<close> with its name, let a suspended caller go on, or let a task take a step.
  A choice that is not possible leaves the state as it is. A schedule is a list of choices.
\<close>

datatype action = Call nat | Resume nat | Task nat outcome

fun loop_step :: "loop \<Rightarrow> action \<Rightarrow> loop" where
  "loop_step s (Call i) =
     (if i < length (callers s) \<and> snd (callers s ! i) = NotCalled
      then ensure_started i (fst (callers s ! i)) s else s)"
| "loop_step s (Resume i) = (if i < length (callers s) then resume i s else s)"
| "loop_step s (Task t out) = (if t < length (tasks s) then run_lifespan t out s else s)"

definition run_loop :: "action list \<Rightarrow> loop \<Rightarrow> loop" where
  "run_loop schedule s = foldl loop_step s schedule"

definition fresh_manager :: "string list \<Rightarrow> loop" where
  \<comment> \<open>a new \<^verbatim>\<open>LifespanManager\<close> and one caller for each of the names, none of which has called yet\<close>
  "fresh_manager names =
     \<lparr>started = Map.empty, cleanup_events = Map.empty, initialized = Map.empty,
      events = [], tasks = [], callers = map (\<lambda>n. (n, NotCalled)) names\<rparr>"

definition sequences :: "string \<Rightarrow> loop \<Rightarrow> task list" where
  \<comment> \<open>the background startup sequences for a name\<close>
  "sequences nm s = filter (\<lambda>t. task_name t = nm) (tasks s)"

definition has_called :: "string \<Rightarrow> loop \<Rightarrow> bool" where
  "has_called nm s = (\<exists>c \<in> set (callers s). fst c = nm \<and> snd c \<noteq> NotCalled)"

text \<open>What the proof carries along a schedule.\<close>

definition inv_tasks :: "loop \<Rightarrow> bool" where
  "inv_tasks s =
     ((\<forall>a t. started s a = Some t \<longrightarrow> t < length (tasks s) \<and> task_name (tasks s ! t) = a) \<and>
      (\<forall>t < length (tasks s). started s (task_name (tasks s ! t)) = Some t) \<and>
      (\<forall>a. started s a \<noteq> None \<longrightarrow>
         (\<exists>j < length (callers s). fst (callers s ! j) = a \<and> snd (callers s ! j) \<noteq> NotCalled)))"

definition inv_events :: "loop \<Rightarrow> bool" where
  "inv_events s =
     ((\<forall>a. (started s a = None) = (initialized s a = None)) \<and>
      (\<forall>a e. initialized s a = Some e \<longrightarrow> e < length (events s)) \<and>
      (\<forall>a b e. initialized s a = Some e \<longrightarrow> initialized s b = Some e \<longrightarrow> a = b) \<and>
      (\<forall>a e t. initialized s a = Some e \<longrightarrow> started s a = Some t \<longrightarrow>
         events s ! e = task_signalled (tasks s ! t)))"

fun caller_ok :: "loop \<Rightarrow> string \<times> caller_pc \<Rightarrow> bool" where
  "caller_ok s (a, NotCalled) = True"
| "caller_ok s (a, Waiting e) = (initialized s a = Some e)"
| "caller_ok s (a, Returned) = (\<exists>e. initialized s a = Some e \<and> events s ! e)"
| "caller_ok s (a, Raised x) = False"

definition inv_callers :: "loop \<Rightarrow> bool" where
  "inv_callers s = (\<forall>j < length (callers s). caller_ok s (callers s ! j))"

definition loop_inv :: "loop \<Rightarrow> bool" where
  "loop_inv s = (inv_tasks s \<and> inv_events s \<and> inv_callers s)"

section \<open>The registry invariant\<close>

lemma register_ok:
  "entry_ok reg nm \<Longrightarrow> register reg k raw parsed src ovr vs ve = Inr reg' \<Longrightarrow> entry_ok reg' nm"
  by (auto simp: entry_ok_def register_def exists_def split: option.splits if_splits)

lemma enable_ok:
  "entry_ok reg nm \<Longrightarrow> enable reg k app tools = Inr reg' \<Longrightarrow>
   specs reg k = Some e \<Longrightarrow> validation_status e \<noteq> INVALID \<Longrightarrow> entry_ok reg' nm"
  by (auto simp: entry_ok_def enable_def get_or_raise_def get_def split: option.splits if_splits)

lemma disable_ok: "entry_ok reg nm \<Longrightarrow> disable reg k = Inr reg' \<Longrightarrow> entry_ok reg' nm"
  by (auto simp: entry_ok_def disable_def get_or_raise_def get_def split: option.splits if_splits)

lemma delete_ok: "entry_ok reg nm \<Longrightarrow> delete reg k = Inr reg' \<Longrightarrow> entry_ok reg' nm"
  by (auto simp: entry_ok_def delete_def disable_def get_or_raise_def get_def exists_def
      split: option.splits if_splits)

lemma upload_spec_Inr:
  "upload_spec reg k content parsed ovr = Inr reg' \<Longrightarrow>
   \<exists>vs. vs \<noteq> PENDING \<and>
     register reg k content (JDict parsed) UPLOAD ovr vs (Some (validate_openapi_spec parsed)) = Inr reg'"
  by (auto simp: upload_spec_def Let_def split: if_splits)

lemma enable_spec_Inr:
  "enable_spec ms reg k = Inr reg' \<Longrightarrow>
   \<exists>e app tools. specs reg k = Some e \<and> validation_status e \<noteq> INVALID \<and>
     enable reg k app tools = Inr reg'"
  by (auto simp: enable_spec_def get_def
      split: option.splits if_splits sum.splits exn.splits prod.splits)

lemma disable_spec_Inr: "disable_spec reg k = Inr reg' \<Longrightarrow> disable reg k = Inr reg'"
  by (simp add: disable_spec_def split: sum.splits exn.splits)

lemma delete_spec_Inr: "delete_spec reg k = Inr reg' \<Longrightarrow> delete reg k = Inr reg'"
  by (simp add: delete_spec_def split: sum.splits exn.splits)

lemma step_ok:
  assumes ok: "entry_ok reg nm" and st: "step ms reg x = Inr reg'"
  shows "entry_ok reg' nm"
proof (cases x)
  case (Register k raw parsed src ovr vs ve)
  with st have "register reg k raw parsed src ovr vs ve = Inr reg'" by simp
  then show ?thesis by (rule register_ok [OF ok])
next
  case (UploadSpec k content parsed ovr)
  with st have "upload_spec reg k content parsed ovr = Inr reg'" by simp
  then obtain vs where
    "register reg k content (JDict parsed) UPLOAD ovr vs (Some (validate_openapi_spec parsed)) = Inr reg'"
    using upload_spec_Inr by blast
  then show ?thesis by (rule register_ok [OF ok])
next
  case (EnableSpec k)
  with st have "enable_spec ms reg k = Inr reg'" by simp
  then obtain e app tools where "specs reg k = Some e" "validation_status e \<noteq> INVALID"
      "enable reg k app tools = Inr reg'"
    using enable_spec_Inr by blast
  then show ?thesis using enable_ok [OF ok] by blast
next
  case (DisableSpec k)
  with st have "disable reg k = Inr reg'" by (simp add: disable_spec_Inr)
  then show ?thesis by (rule disable_ok [OF ok])
next
  case (DeleteSpec k)
  with st have "delete reg k = Inr reg'" by (simp add: delete_spec_Inr)
  then show ?thesis by (rule delete_ok [OF ok])
qed

lemma apply_op_ok: "entry_ok reg nm \<Longrightarrow> entry_ok (apply_op ms reg x) nm"
  by (auto simp: apply_op_def split: sum.splits dest: step_ok)

lemma foldl_ok: "entry_ok reg nm \<Longrightarrow> entry_ok (foldl (apply_op ms) reg ops) nm"
  by (induction ops arbitrary: reg) (auto intro: apply_op_ok)

lemma run_ok: "entry_ok (run ms ops) nm"
  unfolding run_def by (rule foldl_ok) (simp add: entry_ok_def empty_registry_def)

lemma register_no_pending:
  "no_pending reg nm \<Longrightarrow> vs \<noteq> PENDING \<Longrightarrow>
   register reg k raw parsed src ovr vs ve = Inr reg' \<Longrightarrow> no_pending reg' nm"
  by (auto simp: no_pending_def register_def exists_def split: option.splits if_splits)

lemma enable_no_pending:
  "no_pending reg nm \<Longrightarrow> enable reg k app tools = Inr reg' \<Longrightarrow> no_pending reg' nm"
  by (auto simp: no_pending_def enable_def get_or_raise_def get_def split: option.splits if_splits)

lemma disable_no_pending: "no_pending reg nm \<Longrightarrow> disable reg k = Inr reg' \<Longrightarrow> no_pending reg' nm"
  by (auto simp: no_pending_def disable_def get_or_raise_def get_def split: option.splits if_splits)

lemma delete_no_pending: "no_pending reg nm \<Longrightarrow> delete reg k = Inr reg' \<Longrightarrow> no_pending reg' nm"
  by (auto simp: no_pending_def delete_def disable_def get_or_raise_def get_def exists_def
      split: option.splits if_splits)

lemma step_no_pending:
  assumes np: "no_pending reg nm" and x: "\<not> registers_pending x" and st: "step ms reg x = Inr reg'"
  shows "no_pending reg' nm"
proof (cases x)
  case (Register k raw parsed src ovr vs ve)
  with st x have "register reg k raw parsed src ovr vs ve = Inr reg'" "vs \<noteq> PENDING" by simp_all
  then show ?thesis using register_no_pending [OF np] by blast
next
  case (UploadSpec k content parsed ovr)
  with st have "upload_spec reg k content parsed ovr = Inr reg'" by simp
  then obtain vs where "vs \<noteq> PENDING"
      "register reg k content (JDict parsed) UPLOAD ovr vs (Some (validate_openapi_spec parsed)) = Inr reg'"
    using upload_spec_Inr by blast
  then show ?thesis using register_no_pending [OF np] by blast
next
  case (EnableSpec k)
  with st have "enable_spec ms reg k = Inr reg'" by simp
  then obtain app tools where "enable reg k app tools = Inr reg'"
    using enable_spec_Inr by blast
  then show ?thesis by (rule enable_no_pending [OF np])
next
  case (DisableSpec k)
  with st have "disable reg k = Inr reg'" by (simp add: disable_spec_Inr)
  then show ?thesis by (rule disable_no_pending [OF np])
next
  case (DeleteSpec k)
  with st have "delete reg k = Inr reg'" by (simp add: delete_spec_Inr)
  then show ?thesis by (rule delete_no_pending [OF np])
qed

lemma apply_op_no_pending:
  "no_pending reg nm \<Longrightarrow> \<not> registers_pending x \<Longrightarrow> no_pending (apply_op ms reg x) nm"
  by (auto simp: apply_op_def split: sum.splits dest: step_no_pending)

lemma foldl_no_pending:
  "no_pending reg nm \<Longrightarrow> \<forall>x \<in> set ops. \<not> registers_pending x \<Longrightarrow>
   no_pending (foldl (apply_op ms) reg ops) nm"
  by (induction ops arbitrary: reg) (auto intro: apply_op_no_pending)

lemma run_no_pending: "\<forall>x \<in> set ops. \<not> registers_pending x \<Longrightarrow> no_pending (run ms ops) nm"
  unfolding run_def by (rule foldl_no_pending) (simp_all add: no_pending_def empty_registry_def)

text \<open>
  C1, as the code has it. After any history of \<^verbatim>\<open>register\<close>, upload, enable (through the
  gate of \<^verbatim>\<open>enable_spec\<close>), disable and delete calls, and for any name: a name without an
  entry has no application; an enabled entry is not invalid and its application is in
  the side table; a disabled entry has no tool names and no application; the application
  is retrievable by \<^verbatim>\<open>get_mcp_app\<close> exactly when the entry is enabled; and when no
  \<^verbatim>\<open>register\<close> call of the history passed the status pending, an enabled entry is valid.
\<close>

theorem registry_invariant:
  "(case get (run ms ops) nm of
      None \<Rightarrow> mcp_apps (run ms ops) nm = None \<and> get_mcp_app (run ms ops) nm = None
    | Some e \<Rightarrow>
        (enabled e \<longrightarrow> validation_status e \<noteq> INVALID \<and> mcp_apps (run ms ops) nm \<noteq> None) \<and>
        (\<not> enabled e \<longrightarrow> tool_names e = [] \<and> mcp_apps (run ms ops) nm = None) \<and>
        (get_mcp_app (run ms ops) nm \<noteq> None) = enabled e \<and>
        ((\<forall>x \<in> set ops. \<not> registers_pending x) \<longrightarrow> enabled e \<longrightarrow> validation_status e = VALID))"
proof -
  have ok: "entry_ok (run ms ops) nm" by (rule run_ok)
  have np: "(\<forall>x \<in> set ops. \<not> registers_pending x) \<Longrightarrow> no_pending (run ms ops) nm"
    by (rule run_no_pending)
  show ?thesis
  proof (cases "get (run ms ops) nm")
    case None
    with ok show ?thesis by (simp add: entry_ok_def get_def get_mcp_app_def)
  next
    case (Some e)
    with ok np show ?thesis
      by (cases "validation_status e")
         (auto simp: entry_ok_def no_pending_def get_def get_mcp_app_def split: if_splits)
  qed
qed

lemmas run_simps =
  run_def apply_op_def register_def upload_spec_def exists_def empty_registry_def enable_spec_def
  get_def build_mcp_http_app_def build_mcp_server_def resolve_base_url_def doc_servers_only_def
  enable_def get_or_raise_def rstrip_def validate_openapi_spec_def startswith_def get_mcp_app_def

text \<open>
  A history that meets the hypotheses: a valid upload, then enable. The entry is enabled,
  so the theorem gives that it is valid and that its application is retrievable.
\<close>

theorem registry_invariant_witness:
  "(case get (run listed_methods
       [UploadSpec ''a'' [] [(''openapi'', JStr ''3.0.0''), (''paths'', JDict []),
          (''servers'', JList [JDict [(''url'', JStr ''https://api.x.com'')]])] None,
        EnableSpec ''a'']) ''a'' of
      None \<Rightarrow> False
    | Some e \<Rightarrow> enabled e \<and> validation_status e = VALID) \<and>
   get_mcp_app (run listed_methods
       [UploadSpec ''a'' [] [(''openapi'', JStr ''3.0.0''), (''paths'', JDict []),
          (''servers'', JList [JDict [(''url'', JStr ''https://api.x.com'')]])] None,
        EnableSpec ''a'']) ''a'' \<noteq> None"
  using registry_invariant [of listed_methods
       "[UploadSpec ''a'' [] [(''openapi'', JStr ''3.0.0''), (''paths'', JDict []),
          (''servers'', JList [JDict [(''url'', JStr ''https://api.x.com'')]])] None,
        EnableSpec ''a'']" "''a''"]
  by (simp add: run_simps)

text \<open>
  C1 as the spec states it fails: \<^verbatim>\<open>register\<close> accepts the status pending, and the gate of
  \<^verbatim>\<open>enable_spec\<close> refuses only the status invalid, so an enabled entry need not be valid.
\<close>

theorem enabled_pending_counterexample:
  "(case get (run listed_methods
       [Register ''a'' [] doc_servers_only UPLOAD None PENDING None, EnableSpec ''a'']) ''a'' of
      None \<Rightarrow> False
    | Some e \<Rightarrow> enabled e \<and> validation_status e \<noteq> VALID)"
  by (simp add: run_simps)

section \<open>Tool names\<close>

lemma underscore_not_alnum: "\<not> ascii_alnum (CHR ''_'')"
  by (simp add: ascii_alnum_def)

lemma dropWhile_sub_non_alnum:
  "dropWhile (\<lambda>d. d = CHR ''_'') (sub_non_alnum cs) =
   sub_non_alnum (dropWhile (\<lambda>c. \<not> ascii_alnum c) cs)"
  by (induction cs) (auto simp: sub_non_alnum_def underscore_not_alnum)

text \<open>
  The second and third substitution together replace each run of characters other than
  ASCII letters and digits by one underscore.
\<close>

lemma collapse_sub_non_alnum:
  "collapse_underscores (sub_non_alnum s) = replace_runs (\<lambda>c. \<not> ascii_alnum c) s"
proof (induction "\<lambda>c. \<not> ascii_alnum c" s rule: replace_runs.induct)
  case 1
  show ?case by (simp add: sub_non_alnum_def)
next
  case (2 c cs)
  show ?case
  proof (cases "ascii_alnum c")
    case True
    then have "c \<noteq> CHR ''_''" using underscore_not_alnum by auto
    with True 2 show ?thesis by (simp add: sub_non_alnum_def)
  next
    case False
    have "sub_non_alnum (c # cs) = CHR ''_'' # sub_non_alnum cs"
      using False by (simp add: sub_non_alnum_def)
    with False 2 show ?thesis by (simp add: dropWhile_sub_non_alnum)
  qed
qed

lemma sanitize_clean: "sanitize_tool_name s = clean_name s"
  by (simp add: sanitize_tool_name_def clean_name_def collapse_sub_non_alnum)

lemmas name_eval =
  generate_tool_name_def sanitize_tool_name_def match_placeholder_def sub_non_alnum_def
  ascii_alnum_def word_char_def strip_def lstrip_def rstrip_def upper_def upper_char_def

text \<open>
  C3, as the code has it. The two names of the round trip are exactly \<^verbatim>\<open>getPet\<close> and
  \<^verbatim>\<open>GET__pets_petId\<close>. In general, a declared operation id that is not empty gives the
  cleaned id, and no operation id (\<^verbatim>\<open>None\<close>) or an empty one gives the upper-cased method,
  two underscores and the cleaned path; cleaning replaces placeholders by their bare
  names, then every run of characters other than ASCII letters and digits (underscores
  belong to the run) by a single underscore, then trims underscores at both ends.
\<close>

theorem tool_name_generation:
  "generate_tool_name ''get'' ''/pets/{petId}'' (JStr ''getPet'') = Inr ''getPet'' \<and>
   generate_tool_name ''get'' ''/pets/{petId}'' JNull = Inr ''GET__pets_petId'' \<and>
   (s \<noteq> [] \<longrightarrow> generate_tool_name method path (JStr s) = Inr (clean_name s)) \<and>
   generate_tool_name method path JNull = Inr (upper method @ ''__'' @ clean_name path) \<and>
   generate_tool_name method path (JStr []) = Inr (upper method @ ''__'' @ clean_name path)"
proof -
  have 1: "generate_tool_name ''get'' ''/pets/{petId}'' (JStr ''getPet'') = Inr ''getPet''"
    by (simp add: name_eval)
  have 2: "generate_tool_name ''get'' ''/pets/{petId}'' JNull = Inr ''GET__pets_petId''"
    by code_simp
  show ?thesis using 1 2 by (simp add: generate_tool_name_def sanitize_clean)
qed

theorem tool_name_generation_witness:
  "generate_tool_name ''post'' ''/pets'' (JStr ''list__pets{id}'') = Inr ''list_petsid''"
proof -
  have "clean_name ''list__pets{id}'' = ''list_petsid''"
    by (simp add: clean_name_def match_placeholder_def ascii_alnum_def word_char_def
        strip_def lstrip_def rstrip_def)
  with tool_name_generation [of "''list__pets{id}''" "''post''" "''/pets''"] show ?thesis by simp
qed

text \<open>
  C3 as the spec words it fails on an id with a run of underscores: the words leave
  underscores alone, the code collapses the run.
\<close>

theorem underscore_run_counterexample:
  "generate_tool_name ''get'' ''/pets'' (JStr ''list__pets'') = Inr ''list_pets'' \<and>
   spec_sanitize ''list__pets'' = ''list__pets''"
  by (simp add: name_eval spec_sanitize_def)

section \<open>The base URL\<close>

lemma resolve_override: "u \<noteq> [] \<Longrightarrow> resolve_base_url spec (Some u) = Inr (rstrip (CHR ''/'') u)"
  by (simp add: resolve_base_url_def)

lemma resolve_not_dict:
  "override = None \<or> override = Some [] \<Longrightarrow> \<not> is_dict spec \<Longrightarrow>
   resolve_base_url spec override = Inl AttributeError"
  by (cases spec) (auto simp: resolve_base_url_def)

lemma resolve_absent:
  "override = None \<or> override = Some [] \<Longrightarrow> map_of kvs ''servers'' = None \<Longrightarrow>
   resolve_base_url (JDict kvs) override = Inl (OpenAPIConversionError no_server_url)"
  by (auto simp: resolve_base_url_def)

lemma resolve_falsy:
  "override = None \<or> override = Some [] \<Longrightarrow> map_of kvs ''servers'' = Some sv \<Longrightarrow> \<not> truthy sv \<Longrightarrow>
   resolve_base_url (JDict kvs) override = Inl (OpenAPIConversionError no_server_url)"
  by (auto simp: resolve_base_url_def)

lemma resolve_first:
  "override = None \<or> override = Some [] \<Longrightarrow> map_of kvs ''servers'' = Some sv \<Longrightarrow> truthy sv \<Longrightarrow>
   first_item sv = Inr server0 \<Longrightarrow>
   resolve_base_url (JDict kvs) override =
     (case server0 of
        JDict server \<Rightarrow>
          (case map_of server ''url'' of
             None \<Rightarrow> Inl (OpenAPIConversionError no_server_url)
           | Some (JStr url) \<Rightarrow> Inr (rstrip (CHR ''/'') url)
           | Some _ \<Rightarrow> Inl AttributeError)
      | _ \<Rightarrow> Inl (OpenAPIConversionError no_server_url))"
  by (auto simp: resolve_base_url_def)

lemma resolve_first_raises:
  "override = None \<or> override = Some [] \<Longrightarrow> map_of kvs ''servers'' = Some sv \<Longrightarrow> truthy sv \<Longrightarrow>
   first_item sv = Inl e \<Longrightarrow> resolve_base_url (JDict kvs) override = Inl e"
  by (auto simp: resolve_base_url_def)

lemma first_item_not_conversion: "first_item sv \<noteq> Inl (OpenAPIConversionError msg)"
  by (cases sv rule: first_item.cases) auto

lemma first_item_list: "first_item sv = Inr (JDict server) \<Longrightarrow> \<exists>rest. sv = JList (JDict server # rest)"
  by (cases sv rule: first_item.cases) auto

lemma declared_Some:
  assumes "declared_server_url spec = Some v"
  shows "\<exists>kvs server rest. spec = JDict kvs \<and>
           map_of kvs ''servers'' = Some (JList (JDict server # rest)) \<and> map_of server ''url'' = Some v"
proof (cases spec)
  case (JDict kvs)
  show ?thesis
  proof (cases "map_of kvs ''servers''")
    case None
    with JDict assms show ?thesis by (simp add: declared_server_url_def)
  next
    case (Some sv)
    show ?thesis
    proof (cases sv)
      case (JList xs)
      show ?thesis
      proof (cases xs)
        case Nil
        with JDict Some JList assms show ?thesis by (simp add: declared_server_url_def)
      next
        case (Cons x rest)
        with JDict Some JList assms show ?thesis
          by (cases x) (simp_all add: declared_server_url_def)
      qed
    qed (use JDict Some assms in \<open>simp_all add: declared_server_url_def\<close>)
  qed
qed (use assms in \<open>simp_all add: declared_server_url_def\<close>)

lemma declared_resolve:
  assumes d: "declared_server_url spec = Some v" and o: "override = None \<or> override = Some []"
  shows "resolve_base_url spec override =
           (case v of JStr url \<Rightarrow> Inr (rstrip (CHR ''/'') url) | _ \<Rightarrow> Inl AttributeError)"
proof -
  from declared_Some [OF d] obtain kvs server rest where
    s: "spec = JDict kvs" "map_of kvs ''servers'' = Some (JList (JDict server # rest))"
       "map_of server ''url'' = Some v"
    by blast
  have "resolve_base_url (JDict kvs) override =
     (case JDict server of
        JDict server \<Rightarrow>
          (case map_of server ''url'' of
             None \<Rightarrow> Inl (OpenAPIConversionError no_server_url)
           | Some (JStr url) \<Rightarrow> Inr (rstrip (CHR ''/'') url)
           | Some _ \<Rightarrow> Inl AttributeError)
      | _ \<Rightarrow> Inl (OpenAPIConversionError no_server_url))"
    by (rule resolve_first [OF o s(2)]) simp_all
  with s show ?thesis by (cases v) simp_all
qed

lemma undeclared_resolve:
  assumes d: "declared_server_url (JDict kvs) = None" and l: "servers_listed kvs"
    and o: "override = None \<or> override = Some []"
  shows "resolve_base_url (JDict kvs) override = Inl (OpenAPIConversionError no_server_url)"
proof (cases "map_of kvs ''servers''")
  case None
  then show ?thesis by (rule resolve_absent [OF o])
next
  case (Some sv)
  with l obtain xs where sv: "sv = JList xs"
    by (cases sv) (simp_all add: servers_listed_def)
  show ?thesis
  proof (cases xs)
    case Nil
    with sv have "\<not> truthy sv" by simp
    then show ?thesis by (rule resolve_falsy [OF o Some])
  next
    case (Cons x rest)
    with sv have t: "truthy sv" and f: "first_item sv = Inr x" by simp_all
    note r = resolve_first [OF o Some t f]
    show ?thesis
    proof (cases x)
      case (JDict server)
      with d Some sv Cons have "map_of server ''url'' = None"
        by (simp add: declared_server_url_def)
      with r JDict show ?thesis by simp
    qed (use r in simp_all)
  qed
qed

lemma resolve_conversion_error:
  assumes r: "resolve_base_url spec override = Inl (OpenAPIConversionError msg)"
  shows "(override = None \<or> override = Some []) \<and> declared_server_url spec = None"
proof -
  have o: "override = None \<or> override = Some []"
  proof (rule ccontr)
    assume "\<not> ?thesis"
    then obtain u where "override = Some u" "u \<noteq> []" by (cases override) auto
    with r resolve_override show False by simp
  qed
  have "declared_server_url spec = None"
  proof (cases "declared_server_url spec")
    case (Some v)
    from declared_resolve [OF Some o] r show ?thesis by (cases v) simp_all
  qed simp
  with o show ?thesis by simp
qed

text \<open>
  C2, as the code has it. An override that is present and not empty wins over the
  document, trimmed of trailing slashes. With no override, or an empty one, the URL of the
  first declared server is returned, trimmed likewise, when it is a string. For a document
  whose \<^verbatim>\<open>servers\<close> key is absent or holds a list, the resolution fails with the conversion
  error exactly when no first server with a URL is declared. And the conversion error is
  raised only when there is neither a non-empty override nor a declared server URL.
\<close>

theorem resolve_base_url_cases:
  "(u \<noteq> [] \<longrightarrow> resolve_base_url spec (Some u) = Inr (rstrip (CHR ''/'') u)) \<and>
   (override = None \<or> override = Some [] \<longrightarrow>
      (\<forall>url. declared_server_url spec = Some (JStr url) \<longrightarrow>
             resolve_base_url spec override = Inr (rstrip (CHR ''/'') url)) \<and>
      (\<forall>kvs. spec = JDict kvs \<and> servers_listed kvs \<longrightarrow>
             (resolve_base_url spec override = Inl (OpenAPIConversionError no_server_url))
               = (declared_server_url spec = None))) \<and>
   (\<forall>msg. resolve_base_url spec override = Inl (OpenAPIConversionError msg) \<longrightarrow>
          (override = None \<or> override = Some []) \<and> declared_server_url spec = None)"
proof (intro conjI impI allI)
  assume "u \<noteq> []"
  then show "resolve_base_url spec (Some u) = Inr (rstrip (CHR ''/'') u)"
    by (rule resolve_override)
next
  fix url
  assume "override = None \<or> override = Some []" "declared_server_url spec = Some (JStr url)"
  then have "resolve_base_url spec override =
      (case JStr url of JStr url \<Rightarrow> Inr (rstrip (CHR ''/'') url) | _ \<Rightarrow> Inl AttributeError)"
    using declared_resolve [of spec "JStr url" override] by simp
  then show "resolve_base_url spec override = Inr (rstrip (CHR ''/'') url)" by simp
next
  fix kvs
  assume o: "override = None \<or> override = Some []" and s: "spec = JDict kvs \<and> servers_listed kvs"
  from s have sp: "spec = JDict kvs" and l: "servers_listed kvs" by simp_all
  show "(resolve_base_url spec override = Inl (OpenAPIConversionError no_server_url))
               = (declared_server_url spec = None)"
  proof
    assume "resolve_base_url spec override = Inl (OpenAPIConversionError no_server_url)"
    from resolve_conversion_error [OF this] show "declared_server_url spec = None" by simp
  next
    assume "declared_server_url spec = None"
    with sp have "declared_server_url (JDict kvs) = None" by simp
    from undeclared_resolve [OF this l o] sp
    show "resolve_base_url spec override = Inl (OpenAPIConversionError no_server_url)" by simp
  qed
next
  fix msg
  assume r: "resolve_base_url spec override = Inl (OpenAPIConversionError msg)"
  from resolve_conversion_error [OF r]
  show "override = None \<or> override = Some []" and "declared_server_url spec = None" by simp_all
qed

text \<open>
  The three cases at concrete inputs: an override with trailing slashes beside a declared
  server, no override, and neither.
\<close>

theorem resolve_base_url_witness:
  "resolve_base_url doc_slash (Some ''http://localhost:8000//'') = Inr ''http://localhost:8000'' \<and>
   resolve_base_url doc_slash None = Inr ''https://api.x.com/v1'' \<and>
   resolve_base_url (JDict [(''servers'', JList [])]) None = Inl (OpenAPIConversionError no_server_url)"
proof -
  have d: "declared_server_url doc_slash = Some (JStr ''https://api.x.com/v1/'')"
    by (simp add: declared_server_url_def doc_slash_def)
  have e: "declared_server_url (JDict [(''servers'', JList [])]) = None"
    "servers_listed [(''servers'', JList [])]"
    by (simp_all add: declared_server_url_def servers_listed_def)
  from resolve_base_url_cases [of "''http://localhost:8000//''" doc_slash None]
       resolve_base_url_cases [of "[]" "JDict [(''servers'', JList [])]" None] d e
  show ?thesis by (simp add: rstrip_def)
qed

text \<open>
  C2 as the spec states it fails for an override that is present and empty: it does not
  win over the declared server, and without a declared server the resolution fails although
  an override is present.
\<close>

theorem empty_override_counterexample:
  "resolve_base_url doc_slash (Some []) = Inr ''https://api.x.com/v1'' \<and>
   resolve_base_url (JDict []) (Some []) = Inl (OpenAPIConversionError no_server_url)"
  by (simp add: resolve_base_url_def doc_slash_def rstrip_def)


section \<open>The dispatcher\<close>

lemma last_not_found: "last (not_found a) = CHR ''d''"
  by (simp add: not_found_def)

lemma last_not_enabled: "last (not_enabled a) = CHR ''e''"
  by (simp add: not_enabled_def)

lemma messages_differ: "not_found a \<noteq> not_enabled b"
proof
  assume "not_found a = not_enabled b"
  then have "last (not_found a) = last (not_enabled b)" by simp
  then show False by (simp add: last_not_found last_not_enabled)
qed

lemma required_differs: "name_required \<noteq> not_found a \<and> name_required \<noteq> not_enabled a"
  by (simp add: name_required_def not_found_def not_enabled_def)

lemma path_parts_nonempty: "path_parts sc \<noteq> []"
  by (simp add: path_parts_def split_once_def Let_def split: list.splits)

lemma rstrip_prefix: "\<exists>t. s = rstrip x s @ t"
proof -
  have "rev (takeWhile (\<lambda>c. c = x) (rev s) @ dropWhile (\<lambda>c. c = x) (rev s)) = s"
    by (simp only: takeWhile_dropWhile_id rev_rev_ident)
  then have "s = rstrip x s @ rev (takeWhile (\<lambda>c. c = x) (rev s))"
    by (simp only: rev_append rstrip_def)
  then show ?thesis ..
qed

lemma rstrip_keeps:
  assumes "nm \<noteq> []" "x \<notin> set nm"
  shows "rstrip x (nm @ r) = nm @ rstrip x r"
proof -
  have "\<exists>c \<in> set (rev nm). \<not> c = x" using assms by (cases nm) auto
  then have "dropWhile (\<lambda>c. c = x) (rev nm) = rev nm"
    using assms by (cases "rev nm") auto
  moreover have "dropWhile (\<lambda>c. c = x) (rev r @ rev nm) =
      (if \<forall>c \<in> set (rev r). c = x then dropWhile (\<lambda>c. c = x) (rev nm)
       else dropWhile (\<lambda>c. c = x) (rev r) @ rev nm)"
    by (rule dropWhile_append)
  moreover have "(\<forall>c \<in> set (rev r). c = x) \<Longrightarrow> dropWhile (\<lambda>c. c = x) (rev r) = []"
    by simp
  ultimately have "dropWhile (\<lambda>c. c = x) (rev r @ rev nm) = dropWhile (\<lambda>c. c = x) (rev r) @ rev nm"
    by auto
  then show ?thesis by (simp add: rstrip_def)
qed

text \<open>
  The first segment of a request under the mount: for the path \<^verbatim>\<open>{root}/{name}/{rest}\<close> with
  root path \<^verbatim>\<open>{root}\<close> and a name without a slash, the first part is the name.
\<close>

lemma path_parts_mount:
  assumes p: "scope_path sc = Some (root @ ''/'' @ nm @ ''/'' @ rest)"
    and r: "scope_root_path sc = Some root"
    and n: "nm \<noteq> []" "CHR ''/'' \<notin> set nm"
  shows "hd (path_parts sc) = nm"
proof -
  define q where "q = ''/'' @ nm @ ''/'' @ rest"
  from p have p': "scope_path sc = Some (root @ q)" by (simp add: q_def)
  have sw1: "startswith (root @ q) root" by (simp add: startswith_def)
  have sw2: "startswith q ''/''" by (simp add: startswith_def q_def)
  have parts: "path_parts sc = split_once (CHR ''/'') (strip (CHR ''/'') q)"
    using p' r sw1 sw2 by (cases root) (simp_all add: path_parts_def Let_def)
  from n have "lstrip (CHR ''/'') q = nm @ ''/'' @ rest"
    by (cases nm) (auto simp: lstrip_def q_def)
  then have s: "strip (CHR ''/'') q = nm @ rstrip (CHR ''/'') (''/'' @ rest)"
    using n by (simp add: strip_def rstrip_keeps)
  obtain t where t: "''/'' @ rest = rstrip (CHR ''/'') (''/'' @ rest) @ t"
    using rstrip_prefix by blast
  have nm_all: "takeWhile (\<lambda>c. c \<noteq> CHR ''/'') (nm @ u) = nm @ takeWhile (\<lambda>c. c \<noteq> CHR ''/'') u"
    "dropWhile (\<lambda>c. c \<noteq> CHR ''/'') (nm @ u) = dropWhile (\<lambda>c. c \<noteq> CHR ''/'') u" for u
    using n by (auto simp: takeWhile_append dropWhile_append)
  show ?thesis
  proof (cases "rstrip (CHR ''/'') (''/'' @ rest)")
    case Nil
    with s parts nm_all show ?thesis by (simp add: split_once_def)
  next
    case (Cons c u)
    with t have "c = CHR ''/''" by simp
    with Cons s parts nm_all show ?thesis by (simp add: split_once_def)
  qed
qed

text \<open>
  C9. For an HTTP or websocket scope: an empty first segment is answered 404 with the
  message that names the expected path shape; a first segment for which the registry
  returns no application is answered 404 with the not-found message when the name has no
  entry and with the not-enabled message when it has one. No not-found message equals a
  not-enabled message, and neither equals the message for the empty segment. Each answer
  is the whole outcome of the call: nothing is forwarded.
\<close>

theorem dispatch_404:
  assumes "scope_type sc = ''http'' \<or> scope_type sc = ''websocket''"
  shows "(hd (path_parts sc) = [] \<longrightarrow> dispatch reg sc = SendError 404 name_required) \<and>
         (hd (path_parts sc) \<noteq> [] \<and> get_mcp_app reg (hd (path_parts sc)) = None \<longrightarrow>
            (get reg (hd (path_parts sc)) = None \<longrightarrow>
               dispatch reg sc = SendError 404 (not_found (hd (path_parts sc)))) \<and>
            (get reg (hd (path_parts sc)) \<noteq> None \<longrightarrow>
               dispatch reg sc = SendError 404 (not_enabled (hd (path_parts sc))))) \<and>
         (\<forall>a b. not_found a \<noteq> not_enabled b) \<and>
         (\<forall>a. name_required \<noteq> not_found a \<and> name_required \<noteq> not_enabled a)"
proof -
  obtain seg rest where p: "path_parts sc = seg # rest"
    using path_parts_nonempty by (cases "path_parts sc") auto
  from assms p have
    "seg = [] \<Longrightarrow> dispatch reg sc = SendError 404 name_required"
    "seg \<noteq> [] \<Longrightarrow> get_mcp_app reg seg = None \<Longrightarrow> get reg seg = None \<Longrightarrow>
       dispatch reg sc = SendError 404 (not_found seg)"
    "seg \<noteq> [] \<Longrightarrow> get_mcp_app reg seg = None \<Longrightarrow> get reg seg \<noteq> None \<Longrightarrow>
       dispatch reg sc = SendError 404 (not_enabled seg)"
    by (auto simp: dispatch_def)
  with p messages_differ required_differs show ?thesis by simp
qed

text \<open>
  The three answers at concrete requests under the mount \<^verbatim>\<open>/mcp\<close>: a name that was never
  registered, a name that is registered and not enabled, and no name.
\<close>

theorem dispatch_404_witness:
  "dispatch (run listed_methods [Register ''known'' [] doc_servers_only UPLOAD None VALID None])
     \<lparr>scope_type = ''http'', scope_path = Some ''/mcp/unknown/x'', scope_root_path = Some ''/mcp''\<rparr>
     = SendError 404 (not_found ''unknown'') \<and>
   dispatch (run listed_methods [Register ''known'' [] doc_servers_only UPLOAD None VALID None])
     \<lparr>scope_type = ''http'', scope_path = Some ''/mcp/known/x'', scope_root_path = Some ''/mcp''\<rparr>
     = SendError 404 (not_enabled ''known'') \<and>
   dispatch (run listed_methods [Register ''known'' [] doc_servers_only UPLOAD None VALID None])
     \<lparr>scope_type = ''websocket'', scope_path = Some ''/mcp/'', scope_root_path = Some ''/mcp''\<rparr>
     = SendError 404 name_required"
proof -
  let ?reg = "run listed_methods [Register ''known'' [] doc_servers_only UPLOAD None VALID None]"
  let ?u = "\<lparr>scope_type = ''http'', scope_path = Some ''/mcp/unknown/x'', scope_root_path = Some ''/mcp''\<rparr>"
  let ?k = "\<lparr>scope_type = ''http'', scope_path = Some ''/mcp/known/x'', scope_root_path = Some ''/mcp''\<rparr>"
  let ?e = "\<lparr>scope_type = ''websocket'', scope_path = Some ''/mcp/'', scope_root_path = Some ''/mcp''\<rparr>"
  have parts: "path_parts ?u = [''unknown'', ''x'']" "path_parts ?k = [''known'', ''x'']"
    "path_parts ?e = [[]]"
    by (simp_all add: path_parts_def startswith_def strip_def lstrip_def rstrip_def split_once_def)
  have reg: "get ?reg ''unknown'' = None" "get ?reg ''known'' \<noteq> None"
    "get_mcp_app ?reg ''unknown'' = None" "get_mcp_app ?reg ''known'' = None"
    by (simp_all add: run_simps)
  from dispatch_404 [of ?u ?reg] dispatch_404 [of ?k ?reg] dispatch_404 [of ?e ?reg] parts reg
  show ?thesis by simp
qed

section \<open>Input fields\<close>




lemma and_then_Inr: "and_then r f = Inr y \<Longrightarrow> \<exists>x. r = Inr x \<and> f x = Inr y"
  by (cases r) auto











section \<open>The order of the tool names\<close>

lemma convert_operation_result:
  assumes "convert_operation base path path_item plp m = Inr r"
  shows "(case r of
            None \<Rightarrow> path_operations [m] path path_item = []
          | Some t \<Rightarrow> \<exists>x. path_operations [m] path path_item = [x] \<and>
                          operation_name x = Inr (tool_name t))"
proof (cases "case path_item of JDict kvs \<Rightarrow> map_of kvs m | _ \<Rightarrow> None")
  case None
  with assms have "r = None" by (simp add: convert_operation_def)
  moreover from None have "path_operations [m] path path_item = []"
    by (cases path_item) (simp_all add: path_operations_def List.map_filter_simps)
  ultimately show ?thesis by simp
next
  case (Some operation)
  then obtain kvs where pi: "path_item = JDict kvs" and mo: "map_of kvs m = Some operation"
    by (cases path_item) simp_all
  show ?thesis
  proof (cases "is_dict operation")
    case False
    with Some assms have "r = None" by (simp add: convert_operation_def)
    moreover from False pi mo have "path_operations [m] path path_item = []"
      by (cases operation) (simp_all add: path_operations_def List.map_filter_simps)
    ultimately show ?thesis by simp
  next
    case True
    then obtain ops where ops: "operation = JDict ops" by (cases operation) simp_all
    from assms Some True obtain operation_id tname where
      1: "py_get operation ''operationId'' JNull = Inr operation_id"
      and 2: "generate_tool_name m path operation_id = Inr tname"
      and 3: "and_then (build_input_model operation plp tname) (\<lambda>inp.
            and_then (py_get operation ''parameters'' (JList [])) (\<lambda>op_params.
            and_then (merged_params plp op_params) (\<lambda>all_params.
            and_then (names_of_kind ''path'' all_params) (\<lambda>path_param_names.
            and_then (names_of_kind ''query'' all_params) (\<lambda>query_names.
            and_then (py_get operation ''requestBody'' (JDict [])) (\<lambda>request_body.
            and_then (py_get request_body ''content'' (JDict [])) (\<lambda>content.
            and_then (contains_str content ''application/json'') (\<lambda>body.
            and_then (py_get operation ''summary'' JNull) (\<lambda>summary.
            and_then (py_get operation ''description'' JNull) (\<lambda>description.
              Inr (Some
                \<lparr>tool_name = tname,
                 tool_description = py_or (py_or summary description) (JStr []),
                 tool_input = inp,
                 tool_handler =
                   \<lparr>handler_method = m, handler_path = path,
                    path_params_names = path_param_names, query_param_names = query_names,
                    has_body = body, handler_base_url = base\<rparr>\<rparr>))))))))))) = Inr r"
      unfolding convert_operation_def by (simp only: option.case if_False not_True_eq_False)
        (blast dest: and_then_Inr)
    from 3 obtain t where r: "r = Some t" and tn: "tool_name t = tname"
      by (auto dest!: and_then_Inr)
    from pi mo ops have "path_operations [m] path path_item = [(path, m, operation)]"
      by (simp add: path_operations_def List.map_filter_simps)
    moreover from 1 2 have "operation_name (path, m, operation) = Inr tname"
      by (simp add: operation_name_def)
    ultimately show ?thesis using r tn by simp
  qed
qed

lemma path_operations_Cons:
  "path_operations (m # ms) path path_item =
   path_operations [m] path path_item @ path_operations ms path path_item"
  by (cases path_item) (simp_all add: path_operations_def List.map_filter_simps split: option.splits json.splits)

lemma convert_methods_names:
  "convert_methods ms base path path_item plp st = Inr st' \<Longrightarrow>
   \<exists>new. snd st' = snd st @ new \<and>
         map Inr new = map operation_name (path_operations ms path path_item)"
proof (induction ms arbitrary: st)
  case Nil
  then show ?case by (cases path_item) (simp_all add: path_operations_def List.map_filter_simps)
next
  case (Cons m ms)
  from Cons.prems obtain r where
    1: "convert_operation base path path_item plp m = Inr r" and
    2: "convert_methods ms base path path_item plp
         (case r of
            None \<Rightarrow> st
          | Some t \<Rightarrow> ((fst st)\<lparr>server_tools := register_tool t (server_tools (fst st))\<rparr>,
                       snd st @ [tool_name t])) = Inr st'"
    by (auto dest: and_then_Inr)
  note c = convert_operation_result [OF 1]
  show ?case
  proof (cases r)
    case None
    with Cons.IH [of st] 2 c show ?thesis
      by (simp add: path_operations_Cons [of m ms])
  next
    case (Some t)
    with c obtain x where x: "path_operations [m] path path_item = [x]"
      "operation_name x = Inr (tool_name t)" by auto
    from Some 2 Cons.IH [of "((fst st)\<lparr>server_tools := register_tool t (server_tools (fst st))\<rparr>,
                       snd st @ [tool_name t])"]
    obtain new where "snd st' = (snd st @ [tool_name t]) @ new"
      "map Inr new = map operation_name (path_operations ms path path_item)"
      by auto
    with x show ?thesis
      by (intro exI [of _ "tool_name t # new"]) (simp add: path_operations_Cons [of m ms])
  qed
qed

lemma convert_paths_names:
  "convert_paths ms base items st = Inr st' \<Longrightarrow>
   \<exists>new. snd st' = snd st @ new \<and>
         map Inr new = map operation_name (discovered ms items)"
proof (induction items arbitrary: st)
  case Nil
  then show ?case by (simp add: discovered_def)
next
  case (Cons item items)
  obtain path path_item where item: "item = (path, path_item)" by (cases item)
  show ?case
  proof (cases "is_dict path_item")
    case False
    then have "path_operations ms path path_item = []"
      by (cases path_item) (simp_all add: path_operations_def)
    with False item Cons.prems Cons.IH [of st] show ?thesis
      by (simp add: discovered_def)
  next
    case True
    with item Cons.prems obtain plp st1 where
      1: "convert_methods ms base path path_item plp st = Inr st1" and
      2: "convert_paths ms base items st1 = Inr st'"
      by (auto dest!: and_then_Inr)
    from convert_methods_names [OF 1] obtain new1 where n1: "snd st1 = snd st @ new1"
      "map Inr new1 = map operation_name (path_operations ms path path_item)" by blast
    from Cons.IH [OF 2] obtain new2 where n2: "snd st' = snd st1 @ new2"
      "map Inr new2 = map operation_name (discovered ms items)" by blast
    from n1 n2 item show ?thesis
      by (intro exI [of _ "new1 @ new2"]) (simp add: discovered_def)
  qed
qed

text \<open>
  C6, as the code has it. When the conversion returns, the tool names are the names of
  the operations in discovery order: the path entries in the order of the document, and
  within one path entry the methods in the order in which the set of the seven methods is
  iterated, whatever that order is. The list is never sorted.
\<close>

theorem tool_names_discovery_order:
  assumes "build_mcp_server ms nm spec ovr = Inr (srv, names)"
    and "py_get spec ''paths'' (JDict []) = Inr (JDict items)"
  shows "map Inr names = map operation_name (discovered ms items)"
proof -
  from assms obtain base where
    "convert_paths ms base items (\<lparr>server_name = nm, server_tools = []\<rparr>, []) = Inr (srv, names)"
    unfolding build_mcp_server_def by (auto dest!: and_then_Inr)
  from convert_paths_names [OF this] show ?thesis by simp
qed

lemma upper_get: "upper ''get'' = ''GET''"
  by code_simp

lemmas convert_eval =
  returned_names_def build_mcp_server_def resolve_base_url_def rstrip_def convert_operation_def
  build_input_model_def generate_tool_name_def sanitize_tool_name_def match_placeholder_def
  sub_non_alnum_def ascii_alnum_def word_char_def strip_def lstrip_def py_or_def
  listed_methods_def upper_get

lemma names_listed_order:
  "returned_names (build_mcp_server listed_methods ''s'' doc_two_methods None) =
     Inr [''listPets'', ''createPet'', ''GET__owners'']"
  by (simp add: convert_eval doc_two_methods_def)

text \<open>
  A document with two methods under one path, converted with the methods iterated in
  their listed order: the names come path by path, \<^verbatim>\<open>get\<close> before \<^verbatim>\<open>post\<close>.
\<close>

theorem tool_names_discovery_order_witness:
  "returned_names (build_mcp_server listed_methods ''s'' doc_two_methods None) =
     Inr [''listPets'', ''createPet'', ''GET__owners''] \<and>
   map operation_name
     (discovered listed_methods
        [(''/pets'', JDict [(''get'', JDict [(''operationId'', JStr ''listPets'')]),
                           (''post'', JDict [(''operationId'', JStr ''createPet'')])]),
         (''/owners'', JDict [(''get'', JDict [])])]) =
     map Inr [''listPets'', ''createPet'', ''GET__owners'']"
proof -
  from names_listed_order obtain srv where
    b: "build_mcp_server listed_methods ''s'' doc_two_methods None =
           Inr (srv, [''listPets'', ''createPet'', ''GET__owners''])"
    by (auto simp: returned_names_def split: sum.splits)
  have p: "py_get doc_two_methods ''paths'' (JDict []) =
      Inr (JDict [(''/pets'', JDict [(''get'', JDict [(''operationId'', JStr ''listPets'')]),
                                   (''post'', JDict [(''operationId'', JStr ''createPet'')])]),
                (''/owners'', JDict [(''get'', JDict [])])])"
    by (simp add: doc_two_methods_def)
  from tool_names_discovery_order [OF b p]
  have "map operation_name
     (discovered listed_methods
        [(''/pets'', JDict [(''get'', JDict [(''operationId'', JStr ''listPets'')]),
                           (''post'', JDict [(''operationId'', JStr ''createPet'')])]),
         (''/owners'', JDict [(''get'', JDict [])])]) =
     map Inr [''listPets'', ''createPet'', ''GET__owners'']"
    by (rule sym)
  with names_listed_order show ?thesis by (intro conjI)
qed

text \<open>
  C6 as the spec states it fails: the seven methods are a set, and a set of strings is
  iterated in no fixed order. When the iteration visits \<^verbatim>\<open>post\<close> before \<^verbatim>\<open>get\<close>, the names
  of one path entry come in that order, not in the order of the listed methods.
\<close>

theorem method_order_counterexample:
  "set post_first = http_methods \<and> distinct post_first \<and>
   returned_names (build_mcp_server post_first ''s'' doc_two_methods None) =
     Inr [''createPet'', ''listPets'', ''GET__owners''] \<and>
   returned_names (build_mcp_server listed_methods ''s'' doc_two_methods None) =
     Inr [''listPets'', ''createPet'', ''GET__owners'']"
proof -
  have 1: "set post_first = http_methods" "distinct post_first"
    by (auto simp: post_first_def http_methods_def)
  have 2: "returned_names (build_mcp_server post_first ''s'' doc_two_methods None) =
     Inr [''createPet'', ''listPets'', ''GET__owners'']"
    by (simp add: convert_eval doc_two_methods_def post_first_def)
  from 1 2 names_listed_order show ?thesis by simp
qed

section \<open>Failures of the conversion\<close>

lemma bad_parameter_methods:
  "''get'' \<in> set ms \<Longrightarrow>
   convert_methods ms base ''/pets''
     (JDict [(''get'', JDict [(''parameters'', JList [JStr ''petId''])])]) (JList []) st =
   Inl AttributeError"
proof (induction ms arbitrary: st)
  case Nil
  then show ?case by simp
next
  case (Cons m ms)
  show ?case
  proof (cases "m = ''get''")
    case True
    then show ?thesis
      by (simp add: convert_operation_def generate_tool_name_def build_input_model_def
          add_param_def param_field_def)
  next
    case False
    with Cons.prems have "''get'' \<in> set ms" by simp
    with False Cons.IH show ?thesis by (simp add: convert_operation_def)
  qed
qed

text \<open>
  C4 fails on the code. The document declares a server, so the base URL resolves, and one
  parameter entry is a string instead of an object: \<^verbatim>\<open>param.get("name")\<close> raises
  \<^verbatim>\<open>AttributeError\<close>, whatever the order in which the methods are iterated. The conversion
  neither succeeds nor raises the conversion error, and \<^verbatim>\<open>enable_spec\<close>, which catches only
  the conversion error, lets the exception through.
\<close>

theorem malformed_parameter_raises:
  "resolve_base_url doc_bad_parameter None = Inr ''https://api.x.com'' \<and>
   validate_openapi_spec
     [(''openapi'', JStr ''3.0.0''),
      (''servers'', JList [JDict [(''url'', JStr ''https://api.x.com'')]]),
      (''paths'', JDict
         [(''/pets'', JDict [(''get'', JDict [(''parameters'', JList [JStr ''petId''])])])])] = [] \<and>
   (\<forall>ms. set ms = http_methods \<longrightarrow>
      build_mcp_server ms ''petstore'' doc_bad_parameter None = Inl AttributeError)"
proof -
  have 1: "resolve_base_url doc_bad_parameter None = Inr ''https://api.x.com''"
    by (simp add: resolve_base_url_def doc_bad_parameter_def rstrip_def)
  have 2: "''get'' \<in> set ms \<Longrightarrow>
      build_mcp_server ms ''petstore'' doc_bad_parameter None = Inl AttributeError" for ms
    using 1 by (simp add: build_mcp_server_def bad_parameter_methods) (simp add: doc_bad_parameter_def bad_parameter_methods)
  have 3: "set ms = http_methods \<Longrightarrow> ''get'' \<in> set ms" for ms
    by (simp add: http_methods_def)
  show ?thesis using 1 2 3 by (simp add: validate_openapi_spec_def startswith_def)
qed

theorem malformed_parameter_raises_witness:
  "build_mcp_server listed_methods ''petstore'' doc_bad_parameter None = Inl AttributeError"
proof -
  have "set listed_methods = http_methods"
    by (auto simp: listed_methods_def http_methods_def)
  with malformed_parameter_raises show ?thesis by blast
qed
lemma benign_Inr [simp]: "benign (Inr x)"
  by (simp add: benign_def)

lemma benign_other [simp]: "benign (Inl AttributeError)" "benign (Inl TypeError)"
  by (simp_all add: benign_def)

lemma benign_and_then: "benign r \<Longrightarrow> (\<And>x. benign (f x)) \<Longrightarrow> benign (and_then r f)"
  by (cases r) (auto simp: benign_def)

lemma benign_py_get [simp]: "benign (py_get x k d)"
  by (cases x) simp_all

lemma benign_generate_tool_name [simp]: "benign (generate_tool_name m p i)"
  by (cases i) (simp_all add: generate_tool_name_def)

lemma benign_merged_params [simp]: "benign (merged_params a b)"
  by (cases "(a, b)" rule: merged_params.cases) simp_all

lemma benign_openapi_type [simp]: "benign (openapi_type_to_python schema)"
  unfolding openapi_type_to_python_def
  by (rule benign_and_then) (simp_all split: json.splits)

lemma benign_param_field [simp]: "benign (param_field p)"
  unfolding param_field_def Let_def
  by (simp add: benign_and_then)

lemma benign_add_param [simp]: "benign (add_param p st)"
  unfolding add_param_def
  by (rule benign_and_then) (simp_all split: option.splits prod.splits json.splits)

lemma benign_add_params [simp]: "benign (add_params ps st)"
  by (induction ps arbitrary: st) (simp_all add: benign_and_then)

lemma benign_build_input_model [simp]: "benign (build_input_model operation plp tn)"
  unfolding build_input_model_def
  by (intro benign_and_then benign_py_get benign_merged_params benign_add_params)
     (simp_all add: benign_and_then)

lemma benign_names_of_kind [simp]: "benign (names_of_kind kind ps)"
proof (induction ps)
  case Nil
  show ?case by simp
next
  case (Cons p ps)
  show ?case
    unfolding names_of_kind.simps
    by (rule benign_and_then) (simp_all add: Cons benign_and_then split: option.splits json.splits)
qed

lemma benign_contains_str [simp]: "benign (contains_str c k)"
  by (cases c) simp_all

lemma benign_convert_operation [simp]: "benign (convert_operation base path item plp m)"
  unfolding convert_operation_def
  by (simp add: benign_and_then split: option.splits)

lemma benign_convert_methods [simp]: "benign (convert_methods ms base path item plp st)"
  by (induction ms arbitrary: st) (simp_all add: benign_and_then)

lemma benign_convert_paths [simp]: "benign (convert_paths ms base items st)"
proof (induction items arbitrary: st)
  case Nil
  show ?case by simp
next
  case (Cons item items)
  obtain path path_item where "item = (path, path_item)" by (cases item)
  with Cons show ?case by (simp add: benign_and_then)
qed

text \<open>
  The conversion raises the conversion error exactly when the resolution of the base URL
  raises it, and with the same message: no other step of the conversion raises it.
\<close>

theorem conversion_error_only_from_base_url:
  "(build_mcp_server ms nm spec ovr = Inl (OpenAPIConversionError msg)) =
   (resolve_base_url spec ovr = Inl (OpenAPIConversionError msg))"
proof (cases "resolve_base_url spec ovr")
  case (Inl e)
  then show ?thesis by (simp add: build_mcp_server_def)
next
  case (Inr base)
  have "benign (and_then (py_get spec ''paths'' (JDict [])) (\<lambda>paths.
       case paths of
         JDict items \<Rightarrow>
           convert_paths ms base items (\<lparr>server_name = nm, server_tools = []\<rparr>, [])
       | _ \<Rightarrow> Inl AttributeError))"
    by (rule benign_and_then) (simp_all split: json.splits)
  with Inr show ?thesis by (simp add: build_mcp_server_def benign_def)
qed

theorem conversion_error_only_from_base_url_witness:
  "build_mcp_server listed_methods ''s'' (JDict [(''paths'', JDict [])]) None =
     Inl (OpenAPIConversionError no_server_url)"
  using conversion_error_only_from_base_url
          [of listed_methods "''s''" "JDict [(''paths'', JDict [])]" None no_server_url]
  by (simp add: resolve_base_url_def)

section \<open>The request URL\<close>

lemma split_all_nonempty: "split_all x s \<noteq> []"
  by (induction s) (auto split: list.splits)

lemma split_all_no_sep: "x \<notin> set s \<Longrightarrow> split_all x s = [s]"
  by (induction s) auto

lemma split_all_append:
  "x \<notin> set s \<Longrightarrow> split_all x (s @ x # t) = s # split_all x t"
  by (induction s) (auto simp: split_all_nonempty split: list.splits)

lemma split_all_join:
  "segs \<noteq> [] \<Longrightarrow> \<forall>s \<in> set segs. CHR ''/'' \<notin> set s \<Longrightarrow> split_all (CHR ''/'') (join ''/'' segs) = segs"
proof (induction segs)
  case Nil
  then show ?case by simp
next
  case (Cons x xs)
  show ?case
  proof (cases xs)
    case Nil
    with Cons.prems show ?thesis by (simp add: split_all_no_sep)
  next
    case (Cons y ys)
    with Cons.IH Cons.prems have "split_all (CHR ''/'') (join ''/'' (y # ys)) = y # ys" by simp
    with Cons Cons.prems show ?thesis by (simp add: split_all_append)
  qed
qed

lemma split_all_dir_path:
  "\<forall>d \<in> set dirs. CHR ''/'' \<notin> set d \<Longrightarrow>
   split_all (CHR ''/'') (dir_path dirs @ ''/'') = [] # dirs @ [[]]"
proof (induction dirs)
  case Nil
  show ?case by (simp add: dir_path_def)
next
  case (Cons d dirs)
  then have ih: "split_all (CHR ''/'') (dir_path dirs @ ''/'') = [] # dirs @ [[]]" by simp
  have "dir_path (d # dirs) @ ''/'' = CHR ''/'' # d @ dir_path dirs @ ''/''"
    by (simp add: dir_path_def)
  moreover have "\<exists>t. dir_path dirs @ ''/'' = CHR ''/'' # t"
    by (cases dirs) (simp_all add: dir_path_def)
  then obtain t where t: "dir_path dirs @ ''/'' = CHR ''/'' # t" ..
  moreover from ih t have "split_all (CHR ''/'') t = dirs @ [[]]" by simp
  ultimately show ?case using Cons.prems by (simp add: split_all_append)
qed

lemma resolve_segments_plain:
  "\<forall>s \<in> set segs. s \<noteq> ''..'' \<and> s \<noteq> ''.'' \<Longrightarrow> resolve_segments segs acc = acc @ segs"
  by (induction segs arbitrary: acc) auto

lemma join_dirs:
  "segs \<noteq> [] \<Longrightarrow> join ''/'' ([] # dirs @ segs) = dir_path dirs @ ''/'' @ join ''/'' segs"
proof (induction dirs)
  case Nil
  then show ?case by (cases segs) (simp_all add: dir_path_def)
next
  case (Cons d dirs)
  then have "join ''/'' ([] # dirs @ segs) = dir_path dirs @ ''/'' @ join ''/'' segs" by simp
  moreover have "join ''/'' ([] # d # dirs @ segs) = ''/'' @ d @ join ''/'' ([] # dirs @ segs)"
    by (cases "dirs @ segs") (use Cons.prems in simp_all)
  ultimately show ?case by (simp add: dir_path_def)
qed

lemma filter_safe: "\<forall>c \<in> set s. (of_char c :: nat) > 32 \<Longrightarrow> filter (\<lambda>c. \<not> unsafe_byte c) s = s"
  by (induction s) (auto simp: unsafe_byte_def Let_def)

lemma host_char_facts:
  "host_char c \<Longrightarrow> (of_char c :: nat) > 32 \<and> \<not> netloc_end c \<and> c \<noteq> CHR ''['' \<and> c \<noteq> CHR '']''"
  by (auto simp: host_char_def netloc_end_def)

lemma urlsplit_scheme:
  assumes h: "list_all host_char host"
    and q: "\<forall>c \<in> set q. (of_char c :: nat) > 32 \<and> c \<noteq> CHR ''?'' \<and> c \<noteq> CHR ''#''"
    and sch: "takeWhile (\<lambda>c. c \<noteq> CHR '':'') (sch @ '':'') = sch" "sch \<noteq> []" "ascii_alpha (hd sch)"
      "\<forall>c \<in> set sch. scheme_char c" "map lower_char sch = sch"
      "\<forall>c \<in> set sch. (of_char c :: nat) > 32"
  shows "urlsplit chk (sch @ ''://'' @ host @ CHR ''/'' # q) [] =
           Inr (sch, host, CHR ''/'' # q, [], [])"
proof -
  define u where "u = ''//'' @ host @ CHR ''/'' # q"
  define url where "url = sch @ '':'' @ u"
  have hc: "\<forall>c \<in> set host. (of_char c :: nat) > 32 \<and> \<not> netloc_end c \<and> c \<noteq> CHR ''['' \<and> c \<noteq> CHR '']''"
    using h host_char_facts by (auto simp: list_all_iff)
  have big: "\<forall>c \<in> set url. (of_char c :: nat) > 32"
    using hc q sch(6) by (auto simp: u_def url_def)
  have fu: "filter (\<lambda>c. \<not> unsafe_byte c) url = url"
    using big by (rule filter_safe)
  have dw: "dropWhile c0_or_space url = url"
    using sch(2,6) by (cases sch) (auto simp: url_def c0_or_space_def)
  have hd_url: "hd url = hd sch" "url \<noteq> []" using sch(2) by (simp_all add: url_def)
  have colon: "CHR '':'' \<in> set url" by (simp add: url_def)
  have no_colon: "CHR '':'' \<notin> set sch"
  proof
    assume "CHR '':'' \<in> set sch"
    then have "length (takeWhile (\<lambda>c. c \<noteq> CHR '':'') sch) < length sch"
      by (induction sch) auto
    moreover have "takeWhile (\<lambda>c. c \<noteq> CHR '':'') (sch @ '':'') = takeWhile (\<lambda>c. c \<noteq> CHR '':'') sch"
      using \<open>CHR '':'' \<in> set sch\<close> by (simp add: takeWhile_append1)
    ultimately show False using sch(1) by simp
  qed
  from no_colon have no_colon': "\<forall>c \<in> set sch. c \<noteq> CHR '':''" by auto
  have tw: "takeWhile (\<lambda>c. c \<noteq> CHR '':'') url = sch"
    by (simp add: url_def takeWhile_append2 no_colon')
  have dr: "tl (dropWhile (\<lambda>c. c \<noteq> CHR '':'') url) = u"
    by (simp add: url_def dropWhile_append2 no_colon')
  have nl: "takeWhile (\<lambda>c. \<not> netloc_end c) (host @ CHR ''/'' # q) = host"
    "dropWhile (\<lambda>c. \<not> netloc_end c) (host @ CHR ''/'' # q) = CHR ''/'' # q"
    using hc by (simp_all add: takeWhile_append2 dropWhile_append2 netloc_end_def)
  have u2: "take 2 u = ''//''" "drop 2 u = host @ CHR ''/'' # q" by (simp_all add: u_def)
  have qq: "CHR ''#'' \<notin> set q" "CHR ''?'' \<notin> set q" using q by auto
  have tq: "takeWhile (\<lambda>c. c \<noteq> CHR ''#'') q = q" "takeWhile (\<lambda>c. c \<noteq> CHR ''?'') q = q"
    using q by (auto simp: takeWhile_eq_all_conv)
  have br: "CHR ''['' \<notin> set host" "CHR '']'' \<notin> set host" using hc by auto
  have "urlsplit chk url [] = Inr (sch, host, CHR ''/'' # q, [], [])"
    by (simp add: urlsplit_def Let_def fu dw hd_url colon tw dr nl u2 qq tq br sch
        del: takeWhile_eq_all_conv)
  then show ?thesis by (simp add: url_def u_def)
qed

lemma urlsplit_base:
  assumes s: "scheme = ''http'' \<or> scheme = ''https''"
    and h: "list_all host_char host"
    and q: "\<forall>c \<in> set q. (of_char c :: nat) > 32 \<and> c \<noteq> CHR ''?'' \<and> c \<noteq> CHR ''#''"
  shows "urlsplit chk (scheme @ ''://'' @ host @ CHR ''/'' # q) [] =
           Inr (scheme, host, CHR ''/'' # q, [], [])"
proof (rule urlsplit_scheme [OF h q])
  show "takeWhile (\<lambda>c. c \<noteq> CHR '':'') (scheme @ '':'') = scheme" using s by auto
  show "scheme \<noteq> []" using s by auto
  show "ascii_alpha (hd scheme)" using s by (auto simp: ascii_alpha_def)
  show "\<forall>c \<in> set scheme. scheme_char c" using s by (auto simp: scheme_char_def ascii_alnum_def)
  show "map lower_char scheme = scheme" using s by (auto simp: lower_char_def)
  show "\<forall>c \<in> set scheme. (of_char c :: nat) > 32" using s by auto
qed

lemma urlsplit_reference:
  assumes s: "scheme = ''http'' \<or> scheme = ''https''"
    and r: "r \<noteq> []" "hd r \<noteq> CHR ''/''"
      "\<forall>c \<in> set r. (of_char c :: nat) > 32 \<and> c \<noteq> CHR ''?'' \<and> c \<noteq> CHR ''#'' \<and> c \<noteq> CHR '':''"
  shows "urlsplit chk r scheme = Inr (scheme, [], r, [], [])"
proof -
  obtain c cs where rc: "r = c # cs" using r(1) by (cases r) auto
  with r have c: "c \<noteq> CHR ''/''" "(of_char c :: nat) > 32" by simp_all
  have fu: "filter (\<lambda>c. \<not> unsafe_byte c) r = r"
    using r(3) by (simp add: filter_safe)
  have d: "dropWhile c0_or_space r = r"
    using rc c by (simp add: c0_or_space_def)
  have nc: "CHR '':'' \<notin> set r" "CHR ''#'' \<notin> set r" "CHR ''?'' \<notin> set r" using r(3) by auto
  then have tq: "takeWhile (\<lambda>c. c \<noteq> CHR ''#'') r = r" "takeWhile (\<lambda>c. c \<noteq> CHR ''?'') r = r"
    by (auto simp: takeWhile_eq_all_conv)
  have t2: "take 2 r \<noteq> ''//''" using rc c by (cases cs) auto
  have sch: "filter (\<lambda>c. \<not> unsafe_byte c)
               (rev (dropWhile c0_or_space (rev (dropWhile c0_or_space scheme)))) = scheme"
    using s by (auto simp: c0_or_space_def unsafe_byte_def)
  show ?thesis
    by (simp add: urlsplit_def Let_def fu d nc tq t2 sch del: takeWhile_eq_all_conv)
qed

lemma urlparse_base:
  assumes s: "scheme = ''http'' \<or> scheme = ''https''"
    and h: "list_all host_char host"
    and q: "\<forall>c \<in> set q. (of_char c :: nat) > 32 \<and> c \<noteq> CHR ''?'' \<and> c \<noteq> CHR ''#'' \<and> c \<noteq> CHR '';''"
  shows "urlparse chk (scheme @ ''://'' @ host @ CHR ''/'' # q) [] =
           Inr (scheme, host, CHR ''/'' # q, [], [], [])"
proof -
  from q have "\<forall>c \<in> set q. (of_char c :: nat) > 32 \<and> c \<noteq> CHR ''?'' \<and> c \<noteq> CHR ''#''" by auto
  from urlsplit_base [OF s h this]
  have "urlsplit chk (scheme @ ''://'' @ host @ CHR ''/'' # q) [] =
           Inr (scheme, host, CHR ''/'' # q, [], [])" .
  moreover have "CHR '';'' \<notin> set (CHR ''/'' # q)" using q by auto
  ultimately show ?thesis by (simp add: urlparse_def)
qed

lemma urlparse_reference:
  assumes s: "scheme = ''http'' \<or> scheme = ''https''"
    and r: "r \<noteq> []" "hd r \<noteq> CHR ''/''"
      "\<forall>c \<in> set r. (of_char c :: nat) > 32 \<and> c \<noteq> CHR ''?'' \<and> c \<noteq> CHR ''#'' \<and> c \<noteq> CHR '':'' \<and> c \<noteq> CHR '';''"
  shows "urlparse chk r scheme = Inr (scheme, [], r, [], [], [])"
proof -
  from r(3) have "\<forall>c \<in> set r. (of_char c :: nat) > 32 \<and> c \<noteq> CHR ''?'' \<and> c \<noteq> CHR ''#'' \<and> c \<noteq> CHR '':''"
    by auto
  from urlsplit_reference [OF s r(1) r(2) this]
  have "urlsplit chk r scheme = Inr (scheme, [], r, [], [])" .
  moreover have "CHR '';'' \<notin> set r" using r(3) by auto
  ultimately show ?thesis by (simp add: urlparse_def)
qed

lemma plain_segment_chars:
  "plain_segment d \<Longrightarrow> c \<in> set d \<Longrightarrow>
   (of_char c :: nat) > 32 \<and> c \<noteq> CHR ''/'' \<and> c \<noteq> CHR ''?'' \<and> c \<noteq> CHR ''#'' \<and> c \<noteq> CHR '':'' \<and> c \<noteq> CHR '';''"
  by (auto simp: plain_segment_def seg_char_def list_all_iff)

lemma dir_path_chars:
  assumes "\<forall>d \<in> set dirs. plain_segment d" "c \<in> set (dir_path dirs)"
  shows "(of_char c :: nat) > 32 \<and> c \<noteq> CHR ''?'' \<and> c \<noteq> CHR ''#'' \<and> c \<noteq> CHR '';''"
  using assms
proof (induction dirs)
  case Nil
  then show ?case by (simp add: dir_path_def)
next
  case (Cons d dirs)
  from Cons.prems(2) have "c = CHR ''/'' \<or> c \<in> set d \<or> c \<in> set (dir_path dirs)"
    by (auto simp: dir_path_def)
  then show ?case
  proof (elim disjE)
    assume "c = CHR ''/''"
    then show ?thesis by simp
  next
    assume "c \<in> set d"
    with Cons.prems(1) plain_segment_chars [of d c] show ?thesis by simp
  next
    assume "c \<in> set (dir_path dirs)"
    with Cons.IH Cons.prems(1) show ?thesis by simp
  qed
qed

lemma join_chars:
  assumes "\<forall>s \<in> set segs. s = [] \<or> plain_segment s" "c \<in> set (join ''/'' segs)"
  shows "(of_char c :: nat) > 32 \<and> c \<noteq> CHR ''?'' \<and> c \<noteq> CHR ''#'' \<and> c \<noteq> CHR '':'' \<and> c \<noteq> CHR '';''"
  using assms
proof (induction segs)
  case Nil
  then show ?case by simp
next
  case (Cons x xs)
  show ?case
  proof (cases xs)
    case Nil
    with Cons.prems plain_segment_chars [of x c] show ?thesis by auto
  next
    case (Cons y ys)
    with Cons.prems have "c \<in> set x \<or> c = CHR ''/'' \<or> c \<in> set (join ''/'' xs)" by auto
    then show ?thesis
    proof (elim disjE)
      assume "c \<in> set x"
      with Cons.prems plain_segment_chars [of x c] show ?thesis by auto
    next
      assume "c = CHR ''/''"
      then show ?thesis by simp
    next
      assume "c \<in> set (join ''/'' xs)"
      with Cons.IH Cons.prems show ?thesis by simp
    qed
  qed
qed

lemma segs_all:
  assumes "segs \<noteq> []" "\<forall>s \<in> set (butlast segs). plain_segment s"
    "last segs = [] \<or> plain_segment (last segs)"
  shows "\<forall>s \<in> set segs. s = [] \<or> plain_segment s"
proof
  fix s assume "s \<in> set segs"
  with assms(1) have "s \<in> set (butlast segs) \<or> s = last segs"
    by (metis append_butlast_last_id insert_iff list.set(2) rotate1.simps(2) set_rotate1)
  with assms show "s = [] \<or> plain_segment s" by auto
qed

lemma join_hd:
  assumes "segs \<noteq> []" "\<forall>s \<in> set (butlast segs). plain_segment s"
    "last segs = [] \<or> plain_segment (last segs)" "join ''/'' segs \<noteq> []"
  shows "hd (join ''/'' segs) \<noteq> CHR ''/''"
proof (cases segs)
  case Nil
  with assms show ?thesis by simp
next
  case (Cons x xs)
  show ?thesis
  proof (cases xs)
    case Nil
    with Cons assms have "plain_segment x" by auto
    with Nil Cons plain_segment_chars [of x "hd x"] show ?thesis
      by (cases x) (auto simp: plain_segment_def)
  next
    case (Cons y ys)
    with \<open>segs = x # xs\<close> assms have "plain_segment x" by auto
    with Cons \<open>segs = x # xs\<close> plain_segment_chars [of x "hd x"] show ?thesis
      by (cases x) (auto simp: plain_segment_def)
  qed
qed

lemma filter_inner_plain:
  assumes "segs \<noteq> []" "\<forall>d \<in> set dirs. plain_segment d" "\<forall>s \<in> set (butlast segs). plain_segment s"
  shows "filter_inner (([] # dirs @ [[]]) @ segs) = [] # dirs @ segs"
proof -
  have d: "filter (\<lambda>s. s \<noteq> []) dirs = dirs" using assms(2) by (auto simp: plain_segment_def filter_id_conv)
  have b: "filter (\<lambda>s. s \<noteq> []) (butlast segs) = butlast segs"
    using assms(3) by (auto simp: plain_segment_def filter_id_conv)
  have "butlast (dirs @ [[]] @ segs) = dirs @ [[]] @ butlast segs"
    using assms(1) by (simp add: butlast_append)
  moreover have "last (([] # dirs @ [[]]) @ segs) = last segs" using assms(1) by simp
  ultimately have "filter_inner (([] # dirs @ [[]]) @ segs) = [] # dirs @ butlast segs @ [last segs]"
    using assms(1) d b by (simp add: filter_inner_def)
  with assms(1) show ?thesis by simp
qed

lemma dir_path_slash: "\<exists>q. dir_path dirs @ ''/'' = CHR ''/'' # q"
  by (cases dirs) (simp_all add: dir_path_def)

text \<open>
  Joining a plain relative path to a plain base URL that ends with a slash appends it.
\<close>

lemma urljoin_plain:
  assumes s: "scheme = ''http'' \<or> scheme = ''https''"
    and h: "list_all host_char host"
    and d: "\<forall>d \<in> set dirs. plain_segment d"
    and g: "segs \<noteq> []" "\<forall>s \<in> set (butlast segs). plain_segment s"
      "last segs = [] \<or> plain_segment (last segs)"
  shows "urljoin chk (scheme @ ''://'' @ host @ dir_path dirs @ ''/'') (join ''/'' segs) =
           Inr (scheme @ ''://'' @ host @ dir_path dirs @ ''/'' @ join ''/'' segs)"
proof (cases "join ''/'' segs = []")
  case True
  moreover have "scheme @ ''://'' @ host @ dir_path dirs @ ''/'' \<noteq> []" by simp
  ultimately show ?thesis by (simp add: urljoin_def)
next
  case False
  define r where "r = join ''/'' segs"
  obtain q where q: "dir_path dirs @ ''/'' = CHR ''/'' # q" using dir_path_slash by blast
  have qc: "\<forall>c \<in> set q. (of_char c :: nat) > 32 \<and> c \<noteq> CHR ''?'' \<and> c \<noteq> CHR ''#'' \<and> c \<noteq> CHR '';''"
  proof
    fix c assume "c \<in> set q"
    then have "c \<in> set (dir_path dirs @ ''/'')" using q by simp
    then have "c \<in> set (dir_path dirs) \<or> c = CHR ''/''" by auto
    with dir_path_chars [OF d] show "(of_char c :: nat) > 32 \<and> c \<noteq> CHR ''?'' \<and> c \<noteq> CHR ''#'' \<and> c \<noteq> CHR '';''"
      by auto
  qed
  define base where "base = scheme @ ''://'' @ host @ dir_path dirs @ ''/''"
  have bn: "base \<noteq> []" by (simp add: base_def)
  have pb: "urlparse chk base [] = Inr (scheme, host, dir_path dirs @ ''/'', [], [], [])"
    using urlparse_base [OF s h qc] q by (simp add: base_def)
  have all: "\<forall>s \<in> set segs. s = [] \<or> plain_segment s" using segs_all [OF g] .
  have rc: "\<forall>c \<in> set r. (of_char c :: nat) > 32 \<and> c \<noteq> CHR ''?'' \<and> c \<noteq> CHR ''#'' \<and> c \<noteq> CHR '':'' \<and> c \<noteq> CHR '';''"
    using join_chars [OF all] by (simp add: r_def)
  have rn: "r \<noteq> []" using False by (simp add: r_def)
  have rh: "hd r \<noteq> CHR ''/''" using join_hd [OF g False] by (simp add: r_def)
  have pr: "urlparse chk r scheme = Inr (scheme, [], r, [], [], [])"
    using urlparse_reference [OF s rn rh rc] .
  have t1: "take 1 r \<noteq> ''/''" using rn rh by (cases r) auto
  have no_slash: "\<forall>s \<in> set segs. CHR ''/'' \<notin> set s"
    using all plain_segment_chars by fastforce
  have sr: "split_all (CHR ''/'') r = segs"
    using split_all_join [OF g(1) no_slash] by (simp add: r_def)
  have dirs_no_slash: "\<forall>d \<in> set dirs. CHR ''/'' \<notin> set d"
    using d plain_segment_chars by fastforce
  have sp: "split_all (CHR ''/'') (dir_path dirs @ ''/'') = [] # dirs @ [[]]"
    using split_all_dir_path [OF dirs_no_slash] .
  have fi: "filter_inner (([] # dirs @ [[]]) @ segs) = [] # dirs @ segs"
    using filter_inner_plain [OF g(1) d g(2)] .
  have nodots: "\<forall>s \<in> set ([] # dirs @ segs). s \<noteq> ''..'' \<and> s \<noteq> ''.''"
    using d all by (auto simp: plain_segment_def)
  have rs: "resolve_segments ([] # dirs @ segs) [] = [] # dirs @ segs"
    using resolve_segments_plain [OF nodots, of "[]"] by simp
  have ls: "last ([] # dirs @ segs) = last segs" using g(1) by simp
  have ld: "last segs \<noteq> ''.''" "last segs \<noteq> ''..''"
    using g(3) by (auto simp: plain_segment_def)
  define p where "p = dir_path dirs @ ''/'' @ r"
  have jn: "join ''/'' ([] # dirs @ segs) = p"
    using join_dirs [OF g(1)] by (simp add: r_def p_def)
  have ps: "p = CHR ''/'' # q @ r"
    using q unfolding p_def by (metis append.assoc append_Cons)
  have mem: "scheme \<in> set uses_relative" "scheme \<in> set uses_netloc"
    using s by (auto simp: uses_relative_def uses_netloc_def)
  have un: "urlunparse (scheme, host, p, [], [], []) = scheme @ ''://'' @ host @ p"
    using s mem by (auto simp: urlunparse_def urlunsplit_def ps)
  have pne: "p \<noteq> []" by (simp add: ps)
  have rs': "resolve_segments (dirs @ segs) [[]] = [] # dirs @ segs" using rs by simp
  have ls': "last (dirs @ segs) = last segs" using g(1) by simp
  have t1': "take (Suc 0) r \<noteq> ''/''" using t1 by simp
  have fi': "filter_inner ([] # dirs @ [] # segs) = [] # dirs @ segs" using fi by simp
  have "urljoin chk base r = Inr (urlunparse (scheme, host, p, [], [], []))"
    by (simp add: urljoin_def rn bn pb pr mem t1' sr sp fi' rs' ls' ld jn pne g(1) Let_def)
  with un show ?thesis by (simp add: r_def p_def base_def)
qed

lemma endswith_slash: "endswith s ''/'' = (s \<noteq> [] \<and> last s = CHR ''/'')"
  by (cases s rule: rev_cases) (simp_all add: endswith_def startswith_def)

lemma startswith_slash: "startswith s ''/'' = (s \<noteq> [] \<and> hd s = CHR ''/'')"
  by (cases s) (simp_all add: startswith_def)

lemma plain_segment_last: "plain_segment d \<Longrightarrow> d \<noteq> [] \<and> last d \<noteq> CHR ''/''"
proof -
  assume p: "plain_segment d"
  then have n: "d \<noteq> []" by (simp add: plain_segment_def)
  then have "last d \<in> set d" by simp
  with p have "seg_char (last d)" by (simp add: plain_segment_def list_all_iff)
  with n show ?thesis by (auto simp: seg_char_def)
qed

lemma dir_path_last:
  assumes "\<forall>d \<in> set dirs. plain_segment d" and "dirs \<noteq> []"
  shows "dir_path dirs \<noteq> [] \<and> last (dir_path dirs) \<noteq> CHR ''/''"
  using assms
proof (induction dirs rule: rev_induct)
  case Nil
  then show ?case by simp
next
  case (snoc d dirs)
  then have "plain_segment d" by simp
  then have "d \<noteq> [] \<and> last d \<noteq> CHR ''/''" by (rule plain_segment_last)
  then show ?case by (simp add: dir_path_def)
qed

lemma base_no_slash:
  assumes h: "host \<noteq> []" "list_all host_char host"
    and d: "\<forall>d \<in> set dirs. plain_segment d"
  shows "\<not> endswith (scheme @ ''://'' @ host @ dir_path dirs) ''/''"
proof (cases "dirs = []")
  case True
  from h have "last host \<in> set host" by simp
  with h have "host_char (last host)" by (simp add: list_all_iff)
  then have "last host \<noteq> CHR ''/''" by (auto simp: host_char_def)
  with h True show ?thesis by (simp add: endswith_slash dir_path_def)
next
  case False
  with dir_path_last [OF d] have "dir_path dirs \<noteq> []" "last (dir_path dirs) \<noteq> CHR ''/''"
    by simp_all
  then show ?thesis by (simp add: endswith_slash)
qed

text \<open>
  The join on plain input. The base is \<^verbatim>\<open>http\<close> or \<^verbatim>\<open>https\<close>, a host, and directories
  \<^verbatim>\<open>/d1/.../dn\<close>, given with or without its trailing slash; the substituted path consists of
  the segments \<^verbatim>\<open>segs\<close>, given with or without its leading slash. When no directory and no
  segment is empty or a dot segment or contains a colon, a semicolon, a question mark, a
  hash sign, a space or a control character, the URL is the base, one slash, and the path.
\<close>

theorem plain_url_join:
  assumes s: "scheme = ''http'' \<or> scheme = ''https''"
    and h: "host \<noteq> []" "list_all host_char host"
    and d: "\<forall>d \<in> set dirs. plain_segment d"
    and g: "segs \<noteq> []" "\<forall>s \<in> set (butlast segs). plain_segment s"
      "last segs = [] \<or> plain_segment (last segs)"
    and b: "base_url = scheme @ ''://'' @ host @ dir_path dirs \<or>
            base_url = scheme @ ''://'' @ host @ dir_path dirs @ ''/''"
    and p: "substitute path params = join ''/'' segs \<or>
            substitute path params = CHR ''/'' # join ''/'' segs"
  shows "build_url_with_path_params chk base_url path params =
           Inr (scheme @ ''://'' @ host @ dir_path dirs @ ''/'' @ join ''/'' segs)"
proof -
  define b0 where "b0 = scheme @ ''://'' @ host @ dir_path dirs"
  define r where "r = join ''/'' segs"
  define rp where "rp = substitute path params"
  have e0: "\<not> endswith b0 ''/''" unfolding b0_def using base_no_slash [OF h d] .
  have e1: "endswith (b0 @ ''/'') ''/''" by (simp add: endswith_slash)
  have b1: "(if \<not> endswith base_url ''/'' then base_url @ ''/'' else base_url) = b0 @ ''/''"
    using b e0 e1 unfolding b0_def by auto
  have rh: "r \<noteq> [] \<Longrightarrow> hd r \<noteq> CHR ''/''"
    using join_hd [OF g] by (simp add: r_def)
  then have s0: "\<not> startswith r ''/''" by (auto simp: startswith_slash)
  have s1: "startswith (CHR ''/'' # r) ''/''" by (simp add: startswith_slash)
  have "rp = r \<or> rp = CHR ''/'' # r" using p by (simp add: rp_def r_def)
  then have r1: "(if startswith rp ''/'' then drop 1 rp else rp) = r"
    using s0 s1 by auto
  have "build_url_with_path_params chk base_url path params = urljoin chk (b0 @ ''/'') r"
    unfolding build_url_with_path_params_def Let_def rp_def [symmetric] b1 r1 ..
  also have "\<dots> = Inr (scheme @ ''://'' @ host @ dir_path dirs @ ''/'' @ join ''/'' segs)"
    using urljoin_plain [OF s h(2) d g] by (simp add: b0_def r_def)
  finally show ?thesis .
qed

theorem pets_url_example:
  "\<forall>chk. build_url_with_path_params chk ''https://api.x.com'' ''/pets/{petId}''
     [(''petId'', JInt 123)] = Inr ''https://api.x.com/pets/123''"
proof
  fix chk
  have 1: "list_all host_char ''api.x.com''" by code_simp
  have 2: "\<forall>s \<in> set (butlast [''pets'', ''123'']). plain_segment s" by code_simp
  have 3: "plain_segment (last [''pets'', ''123''])" by code_simp
  have 4: "substitute ''/pets/{petId}'' [(''petId'', JInt 123)] =
             CHR ''/'' # join ''/'' [''pets'', ''123'']" by code_simp
  have "build_url_with_path_params chk ''https://api.x.com'' ''/pets/{petId}''
          [(''petId'', JInt 123)] =
        Inr (''https'' @ ''://'' @ ''api.x.com'' @ dir_path [] @ ''/'' @ join ''/'' [''pets'', ''123''])"
    using 1 2 3 4
    by (intro plain_url_join [where dirs = "[]" and segs = "[''pets'', ''123'']"])
       (simp_all add: dir_path_def)
  then show "build_url_with_path_params chk ''https://api.x.com'' ''/pets/{petId}''
     [(''petId'', JInt 123)] = Inr ''https://api.x.com/pets/123''"
    by (simp add: dir_path_def)
qed

text \<open>
  C8 fails on the code. After the slashes are normalized the two parts are not
  concatenated but handed to \<^verbatim>\<open>urljoin\<close>, which resolves the path as a relative reference
  against the base: a parameter value \<^verbatim>\<open>..\<close> climbs out of the base path, a first segment
  with a colon is read as a scheme and the base is dropped, an absolute URL as the value of
  a leading parameter replaces the base, and an empty parameter value loses its segment.
\<close>

theorem url_reference_resolution:
  "build_url_with_path_params chk ''https://api.x.com/v1'' ''/files/{name}''
     [(''name'', JStr ''..'')] = Inr ''https://api.x.com/v1/'' \<and>
   build_url_with_path_params chk ''https://api.x.com/v1'' ''/files/{name}''
     [(''name'', JStr ''../../admin'')] = Inr ''https://api.x.com/admin'' \<and>
   build_url_with_path_params chk ''https://api.x.com'' ''/items:search'' [] =
     Inr ''items:search'' \<and>
   build_url_with_path_params chk ''https://api.x.com'' ''/{target}''
     [(''target'', JStr ''http://evil.example/x'')] = Inr ''http://evil.example/x'' \<and>
   build_url_with_path_params chk ''https://api.x.com'' ''/users/{id}/posts''
     [(''id'', JStr '''')] = Inr ''https://api.x.com/users/posts''"
  by code_simp

section \<open>The invocation handler\<close>





text \<open>
  The handler raises only before there is a response: when the URL cannot be built, or
  when the client raises instead of returning a response.
\<close>

theorem handler_raises_before_response:
  "(handler chk client h kwargs = Inl e) =
     (handler_request chk h kwargs = Inl e \<or>
      (\<exists>req. handler_request chk h kwargs = Inr req \<and> client req = Inl e))"
proof (cases "handler_request chk h kwargs")
  case (Inl a)
  then show ?thesis by (simp add: handler_def)
next
  case (Inr req)
  then show ?thesis by (cases "client req") (simp_all add: handler_def)
qed

section \<open>One startup sequence for a name\<close>

lemma nth_upd: "xs[i := x] ! j = (if i = j \<and> i < length xs then x else xs ! j)"
  by (cases "i < length xs") (auto simp: nth_list_update list_update_beyond)

lemma caller_ok_mono:
  assumes "caller_ok s c"
    and "\<And>e. initialized s (fst c) = Some e \<Longrightarrow>
           initialized s' (fst c) = Some e \<and> (events s ! e \<longrightarrow> events s' ! e)"
  shows "caller_ok s' c"
proof (cases c)
  case (Pair a pc)
  with assms show ?thesis by (cases pc) auto
qed

lemma inv_fresh: "loop_inv (fresh_manager names)"
  by (simp add: loop_inv_def inv_tasks_def inv_events_def inv_callers_def fresh_manager_def)

lemma inv_set_pc:
  assumes i: "loop_inv s"
  shows "loop_inv (set_pc t pc s)"
proof -
  define s' where "s' = set_pc t pc s"
  have n: "task_name (tasks s' ! u) = task_name (tasks s ! u)"
    and g: "task_signalled (tasks s' ! u) = task_signalled (tasks s ! u)" for u
    by (simp_all add: s'_def set_pc_def nth_upd)
  have same: "started s' = started s" "initialized s' = initialized s" "callers s' = callers s"
    "length (tasks s') = length (tasks s)" "events s' = events s"
    by (simp_all add: s'_def set_pc_def)
  from i have 1: "inv_tasks s'"
    unfolding loop_inv_def inv_tasks_def same n by simp
  from i have 2: "inv_events s'"
    unfolding loop_inv_def inv_events_def same g by simp
  have 3: "inv_callers s'"
    unfolding inv_callers_def same
  proof (intro allI impI)
    fix j assume "j < length (callers s)"
    with i have "caller_ok s (callers s ! j)" by (simp add: loop_inv_def inv_callers_def)
    then show "caller_ok s' (callers s ! j)" by (rule caller_ok_mono) (simp add: same)
  qed
  from 1 2 3 show ?thesis by (simp add: loop_inv_def s'_def)
qed

lemma inv_signal:
  assumes i: "loop_inv s" and t: "t < length (tasks s)"
  shows "loop_inv (signal t pc s)"
proof -
  define a where "a = task_name (tasks s ! t)"
  from i have it: "inv_tasks s" and ie: "inv_events s" and ic: "inv_callers s"
    by (simp_all add: loop_inv_def)
  from it t have st: "started s a = Some t" by (simp add: inv_tasks_def a_def)
  with ie obtain e where e: "initialized s a = Some e"
    unfolding inv_events_def by (metis option.distinct(1) option.exhaust)
  from ie e have el: "e < length (events s)" unfolding inv_events_def by blast
  define s' where "s' = s\<lparr>events := (events s)[e := True],
      tasks := (tasks s)[t := (tasks s ! t)\<lparr>task_pc := pc, task_signalled := True\<rparr>]\<rparr>"
  have sg: "signal t pc s = s'" using e by (simp add: signal_def a_def s'_def)
  have n: "task_name (tasks s' ! u) = task_name (tasks s ! u)" for u
    by (simp add: s'_def nth_upd)
  have g: "task_signalled (tasks s' ! u) = (if u = t then True else task_signalled (tasks s ! u))"
    for u using t by (simp add: s'_def nth_upd)
  have ev: "events s' ! x = (if x = e then True else events s ! x)" for x
    using el by (simp add: s'_def nth_upd)
  have same: "started s' = started s" "initialized s' = initialized s" "callers s' = callers s"
    "length (tasks s') = length (tasks s)" "length (events s') = length (events s)"
    by (simp_all add: s'_def)
  have 1: "inv_tasks s'"
    using it unfolding inv_tasks_def same by (simp add: n)
  have 2: "inv_events s'"
    unfolding inv_events_def same
  proof (intro conjI allI impI)
    fix b show "(started s b = None) = (initialized s b = None)"
      using ie unfolding inv_events_def by blast
  next
    fix b x assume "initialized s b = Some x"
    then show "x < length (events s)" using ie unfolding inv_events_def by blast
  next
    fix b c x assume "initialized s b = Some x" "initialized s c = Some x"
    then show "b = c" using ie unfolding inv_events_def by blast
  next
    fix b x u assume b: "initialized s b = Some x" "started s b = Some u"
    then have old: "events s ! x = task_signalled (tasks s ! u)"
      using ie unfolding inv_events_def by blast
    show "events s' ! x = task_signalled (tasks s' ! u)"
    proof (cases "b = a")
      case True
      with b e st have "x = e" "u = t" by simp_all
      then show ?thesis by (simp add: ev g)
    next
      case False
      have "x \<noteq> e" using ie b(1) e False unfolding inv_events_def by blast
      moreover have "u \<noteq> t" using it b(2) False unfolding inv_tasks_def a_def by blast
      ultimately show ?thesis using old by (simp add: ev g)
    qed
  qed
  have 3: "inv_callers s'"
    unfolding inv_callers_def same
  proof (intro allI impI)
    fix j assume "j < length (callers s)"
    with ic have "caller_ok s (callers s ! j)" by (simp add: inv_callers_def)
    then show "caller_ok s' (callers s ! j)" by (rule caller_ok_mono) (simp add: same ev)
  qed
  from 1 2 3 sg show ?thesis by (simp add: loop_inv_def)
qed

lemma inv_run_lifespan:
  assumes "loop_inv s" and "t < length (tasks s)"
  shows "loop_inv (run_lifespan t out s)"
  using assms by (cases out) (simp_all add: run_lifespan_def inv_set_pc inv_signal)

lemma inv_resume:
  assumes i: "loop_inv s" and l: "i < length (callers s)"
  shows "loop_inv (resume i s)"
proof (cases "\<exists>nm e. callers s ! i = (nm, Waiting e) \<and> e < length (events s) \<and> events s ! e")
  case False
  then have "resume i s = s"
    by (auto simp: resume_def split: prod.splits caller_pc.splits)
  with i show ?thesis by simp
next
  case True
  then obtain nm e where c: "callers s ! i = (nm, Waiting e)" and el: "e < length (events s)"
    and ev: "events s ! e" by blast
  from i have it: "inv_tasks s" and ie: "inv_events s" and ic: "inv_callers s"
    by (simp_all add: loop_inv_def)
  define s' where "s' = s\<lparr>callers := (callers s)[i := (nm, Returned)]\<rparr>"
  have r: "resume i s = s'" using c el ev by (simp add: resume_def s'_def)
  have same: "started s' = started s" "initialized s' = initialized s" "tasks s' = tasks s"
    "events s' = events s" "length (callers s') = length (callers s)"
    by (simp_all add: s'_def)
  have cs: "callers s' ! j = (if j = i then (nm, Returned) else callers s ! j)" for j
    using l by (simp add: s'_def nth_upd)
  from ic l have "caller_ok s (callers s ! i)" by (simp add: inv_callers_def)
  with c have ini: "initialized s nm = Some e" by simp
  have 1: "inv_tasks s'"
  proof -
    have a: "\<forall>a t. started s a = Some t \<longrightarrow> t < length (tasks s) \<and> task_name (tasks s ! t) = a"
      and b: "\<forall>t < length (tasks s). started s (task_name (tasks s ! t)) = Some t"
      using it unfolding inv_tasks_def by blast+
    have "\<exists>j<length (callers s). fst (callers s' ! j) = a \<and> snd (callers s' ! j) \<noteq> NotCalled"
      if "started s a \<noteq> None" for a
    proof -
      from that obtain j where j: "j < length (callers s)" "fst (callers s ! j) = a"
        "snd (callers s ! j) \<noteq> NotCalled" using it unfolding inv_tasks_def by blast
      then have "fst (callers s' ! j) = a \<and> snd (callers s' ! j) \<noteq> NotCalled"
        using c by (auto simp: cs)
      with j(1) show ?thesis by blast
    qed
    with a b show ?thesis unfolding inv_tasks_def same by blast
  qed
  have 2: "inv_events s'" using ie unfolding inv_events_def same .
  have 3: "inv_callers s'"
    unfolding inv_callers_def same
  proof (intro allI impI)
    fix j assume j: "j < length (callers s)"
    with ic have "caller_ok s (callers s ! j)" by (simp add: inv_callers_def)
    then have "caller_ok s' (callers s ! j)" by (rule caller_ok_mono) (simp add: same)
    moreover have "caller_ok s' (nm, Returned)" using ini ev by (auto simp: same)
    ultimately show "caller_ok s' (callers s' ! j)" by (simp add: cs)
  qed
  from 1 2 3 r show ?thesis by (simp add: loop_inv_def)
qed

lemma inv_ensure_started_known:
  assumes i: "loop_inv s" and l: "i < length (callers s)"
    and c: "callers s ! i = (nm, NotCalled)" and k: "started s nm \<noteq> None"
  shows "loop_inv (ensure_started i nm s)"
proof -
  from i have it: "inv_tasks s" and ie: "inv_events s" and ic: "inv_callers s"
    by (simp_all add: loop_inv_def)
  from ie k obtain e where e: "initialized s nm = Some e"
    unfolding inv_events_def by (metis option.exhaust)
  define s' where "s' = s\<lparr>callers := (callers s)[i := (nm, wait_event e s)]\<rparr>"
  have r: "ensure_started i nm s = s'" using k e by (simp add: ensure_started_def s'_def)
  have same: "started s' = started s" "initialized s' = initialized s" "tasks s' = tasks s"
    "events s' = events s" "length (callers s') = length (callers s)"
    by (simp_all add: s'_def)
  have cs: "callers s' ! j = (if j = i then (nm, wait_event e s) else callers s ! j)" for j
    using l by (simp add: s'_def nth_upd)
  have 1: "inv_tasks s'"
  proof -
    have a: "\<forall>a t. started s a = Some t \<longrightarrow> t < length (tasks s) \<and> task_name (tasks s ! t) = a"
      and b: "\<forall>t < length (tasks s). started s (task_name (tasks s ! t)) = Some t"
      using it unfolding inv_tasks_def by blast+
    have "\<exists>j<length (callers s). fst (callers s' ! j) = a \<and> snd (callers s' ! j) \<noteq> NotCalled"
      if "started s a \<noteq> None" for a
    proof -
      from that obtain j where j: "j < length (callers s)" "fst (callers s ! j) = a"
        "snd (callers s ! j) \<noteq> NotCalled" using it unfolding inv_tasks_def by blast
      then have "fst (callers s' ! j) = a \<and> snd (callers s' ! j) \<noteq> NotCalled"
        using c by (auto simp: cs)
      with j(1) show ?thesis by blast
    qed
    with a b show ?thesis unfolding inv_tasks_def same by blast
  qed
  have 2: "inv_events s'" using ie unfolding inv_events_def same .
  have 3: "inv_callers s'"
    unfolding inv_callers_def same
  proof (intro allI impI)
    fix j assume j: "j < length (callers s)"
    with ic have "caller_ok s (callers s ! j)" by (simp add: inv_callers_def)
    then have "caller_ok s' (callers s ! j)" by (rule caller_ok_mono) (simp add: same)
    moreover have "caller_ok s' (nm, wait_event e s)"
      using e by (simp add: wait_event_def same)
    ultimately show "caller_ok s' (callers s' ! j)" by (simp add: cs)
  qed
  from 1 2 3 r show ?thesis by (simp add: loop_inv_def)
qed

lemma inv_ensure_started_new:
  assumes i: "loop_inv s" and l: "i < length (callers s)"
    and c: "callers s ! i = (nm, NotCalled)" and k: "started s nm = None"
  shows "loop_inv (ensure_started i nm s)"
proof -
  from i have it: "inv_tasks s" and ie: "inv_events s" and ic: "inv_callers s"
    by (simp_all add: loop_inv_def)
  from ie k have ni: "initialized s nm = None" unfolding inv_events_def by blast
  define e where "e = Suc (length (events s))"
  define t where "t = length (tasks s)"
  define s' where "s' = ensure_started i nm s"
  have st: "started s' = (started s)(nm \<mapsto> t)"
    and ini: "initialized s' = (initialized s)(nm \<mapsto> e)"
    and ev: "events s' = events s @ [False, False]"
    and ta: "tasks s' = tasks s @ [\<lparr>task_name = nm, task_pc = Scheduled, task_signalled = False\<rparr>]"
    and ca: "callers s' = (callers s)[i := (nm, Waiting e)]"
    using k by (simp_all add: s'_def ensure_started_def Let_def e_def t_def)
  have cs: "callers s' ! j = (if j = i then (nm, Waiting e) else callers s ! j)" for j
    using l by (simp add: ca nth_upd)
  have len: "length (callers s') = length (callers s)" by (simp add: ca)
  have old_t: "u < length (tasks s) \<and> task_name (tasks s ! u) = a" if "started s a = Some u" for a u
    using it that unfolding inv_tasks_def by blast
  have old_s: "started s (task_name (tasks s ! u)) = Some u" if "u < length (tasks s)" for u
    using it that unfolding inv_tasks_def by blast
  have old_e: "x < length (events s)" if "initialized s a = Some x" for a x
    using ie that unfolding inv_events_def by blast
  have 1: "inv_tasks s'"
    unfolding inv_tasks_def
  proof (intro conjI allI impI)
    fix a u assume "started s' a = Some u"
    then have "(a = nm \<and> u = t) \<or> (a \<noteq> nm \<and> started s a = Some u)"
      by (auto simp: st split: if_splits)
    then show "u < length (tasks s')" and "task_name (tasks s' ! u) = a"
      using old_t [of a u] by (auto simp: ta t_def nth_append)
  next
    fix u assume "u < length (tasks s')"
    then have "u < length (tasks s) \<or> u = t" by (auto simp: ta t_def)
    then show "started s' (task_name (tasks s' ! u)) = Some u"
    proof
      assume u: "u < length (tasks s)"
      with old_s have "started s (task_name (tasks s ! u)) = Some u" by blast
      moreover from this k have "task_name (tasks s ! u) \<noteq> nm" by auto
      ultimately show ?thesis using u by (simp add: st ta nth_append)
    next
      assume "u = t"
      then show ?thesis by (simp add: st ta t_def)
    qed
  next
    fix a assume a: "started s' a \<noteq> None"
    show "\<exists>j<length (callers s'). fst (callers s' ! j) = a \<and> snd (callers s' ! j) \<noteq> NotCalled"
    proof (cases "a = nm")
      case True
      then have "fst (callers s' ! i) = a \<and> snd (callers s' ! i) \<noteq> NotCalled" by (simp add: cs)
      with l show ?thesis unfolding len by blast
    next
      case False
      with a have "started s a \<noteq> None" by (simp add: st)
      then obtain j where j: "j < length (callers s)" "fst (callers s ! j) = a"
        "snd (callers s ! j) \<noteq> NotCalled" using it unfolding inv_tasks_def by blast
      then have "fst (callers s' ! j) = a \<and> snd (callers s' ! j) \<noteq> NotCalled"
        using c by (auto simp: cs)
      with j(1) show ?thesis unfolding len by blast
    qed
  qed
  have 2: "inv_events s'"
    unfolding inv_events_def
  proof (intro conjI allI impI)
    fix a show "(started s' a = None) = (initialized s' a = None)"
      using ie unfolding inv_events_def by (simp add: st ini)
  next
    fix a x assume "initialized s' a = Some x"
    then have "x = e \<or> initialized s a = Some x" by (auto simp: ini split: if_splits)
    then show "x < length (events s')" using old_e [of a x] by (auto simp: ev e_def)
  next
    fix a b x assume "initialized s' a = Some x" "initialized s' b = Some x"
    then have "(a = nm \<and> x = e) \<or> (a \<noteq> nm \<and> initialized s a = Some x)"
      and "(b = nm \<and> x = e) \<or> (b \<noteq> nm \<and> initialized s b = Some x)"
      by (auto simp: ini split: if_splits)
    moreover have "initialized s a = Some x \<Longrightarrow> initialized s b = Some x \<Longrightarrow> a = b"
      using ie unfolding inv_events_def by blast
    ultimately show "a = b" using old_e [of a x] old_e [of b x] by (auto simp: e_def)
  next
    fix a x u assume "initialized s' a = Some x" "started s' a = Some u"
    then have "(a = nm \<and> x = e \<and> u = t) \<or>
               (a \<noteq> nm \<and> initialized s a = Some x \<and> started s a = Some u)"
      by (auto simp: ini st split: if_splits)
    then show "events s' ! x = task_signalled (tasks s' ! u)"
    proof
      assume "a = nm \<and> x = e \<and> u = t"
      then show ?thesis by (simp add: ev ta e_def t_def nth_append)
    next
      assume o: "a \<noteq> nm \<and> initialized s a = Some x \<and> started s a = Some u"
      then have "events s ! x = task_signalled (tasks s ! u)"
        using ie unfolding inv_events_def by blast
      moreover from o have "x < length (events s)" "u < length (tasks s)"
        using old_e [of a x] old_t [of a u] by simp_all
      ultimately show ?thesis by (simp add: ev ta nth_append)
    qed
  qed
  have 3: "inv_callers s'"
    unfolding inv_callers_def len
  proof (intro allI impI)
    fix j assume j: "j < length (callers s)"
    with ic have "caller_ok s (callers s ! j)" by (simp add: inv_callers_def)
    then have "caller_ok s' (callers s ! j)"
    proof (rule caller_ok_mono)
      fix x assume x: "initialized s (fst (callers s ! j)) = Some x"
      with ni have "fst (callers s ! j) \<noteq> nm" by auto
      moreover from x have "x < length (events s)" by (rule old_e)
      ultimately show "initialized s' (fst (callers s ! j)) = Some x \<and>
          (events s ! x \<longrightarrow> events s' ! x)"
        using x by (simp add: ini ev nth_append)
    qed
    moreover have "caller_ok s' (nm, Waiting e)" by (simp add: ini)
    ultimately show "caller_ok s' (callers s' ! j)" by (simp add: cs)
  qed
  from 1 2 3 show ?thesis by (simp add: loop_inv_def s'_def)
qed

lemma inv_step: "loop_inv s \<Longrightarrow> loop_inv (loop_step s a)"
proof (cases a)
  case (Call i)
  assume i: "loop_inv s"
  show ?thesis
  proof (cases "i < length (callers s) \<and> snd (callers s ! i) = NotCalled")
    case False
    with i Call show ?thesis by auto
  next
    case True
    define nm where "nm = fst (callers s ! i)"
    from True have c: "callers s ! i = (nm, NotCalled)" by (simp add: nm_def prod_eq_iff)
    from True have "loop_inv (ensure_started i nm s)"
      using inv_ensure_started_known [OF i _ c] inv_ensure_started_new [OF i _ c]
      by (cases "started s nm = None") simp_all
    with True Call show ?thesis by (simp add: nm_def)
  qed
next
  case (Resume i)
  assume "loop_inv s"
  with Resume show ?thesis by (simp add: inv_resume)
next
  case (Task t out)
  assume "loop_inv s"
  with Task show ?thesis by (simp add: inv_run_lifespan)
qed

lemma inv_run: "loop_inv s \<Longrightarrow> loop_inv (run_loop schedule s)"
  unfolding run_loop_def by (induction schedule arbitrary: s) (simp_all add: inv_step)

lemma map_fst_upd: "map fst (xs[i := (fst (xs ! i), pc)]) = map fst xs"
proof (induction xs arbitrary: i)
  case Nil
  then show ?case by simp
next
  case (Cons x xs)
  then show ?case by (cases i) simp_all
qed

lemma callers_step: "map fst (callers (loop_step s a)) = map fst (callers s)"
proof (cases a)
  case (Call i)
  show ?thesis
    using Call by (simp add: ensure_started_def Let_def map_fst_upd split: option.splits)
next
  case (Resume i)
  have "map fst ((callers s)[i := (nm, pc)]) = map fst (callers s)"
    if "fst (callers s ! i) = nm" for nm pc
    using that map_fst_upd [of "callers s" i pc] by simp
  then show ?thesis
    using Resume by (auto simp: resume_def split: prod.splits caller_pc.splits)
next
  case (Task t out)
  then show ?thesis
    by (cases out) (simp_all add: run_lifespan_def set_pc_def signal_def split: option.splits)
qed

lemma callers_run: "map fst (callers (run_loop schedule s)) = map fst (callers s)"
  unfolding run_loop_def by (induction schedule arbitrary: s) (simp_all add: callers_step)

lemma count_distinct:
  "distinct (map f xs) \<Longrightarrow>
   length (filter (\<lambda>x. f x = a) xs) = (if a \<in> f ` set xs then 1 else 0)"
  by (induction xs) auto

lemma inv_events_dom: "inv_events s \<Longrightarrow> (started s a = None) = (initialized s a = None)"
  by (simp add: inv_events_def)

lemma inv_has_called:
  assumes i: "loop_inv s"
  shows "has_called a s = (started s a \<noteq> None)"
proof
  assume "has_called a s"
  then obtain j where j: "j < length (callers s)" "fst (callers s ! j) = a"
    "snd (callers s ! j) \<noteq> NotCalled"
    unfolding has_called_def by (auto simp: in_set_conv_nth)
  from i j(1) have ok: "caller_ok s (callers s ! j)" by (simp add: loop_inv_def inv_callers_def)
  obtain pc where c: "callers s ! j = (a, pc)" using j(2) by (cases "callers s ! j") simp
  from ok c j(3) have "initialized s a \<noteq> None" by (cases pc) auto
  moreover from i have "inv_events s" by (simp add: loop_inv_def)
  ultimately show "started s a \<noteq> None" by (simp add: inv_events_dom)
next
  assume "started s a \<noteq> None"
  with i obtain j where j: "j < length (callers s)" "fst (callers s ! j) = a"
    "snd (callers s ! j) \<noteq> NotCalled"
    unfolding loop_inv_def inv_tasks_def by blast
  from j(1) have "callers s ! j \<in> set (callers s)" by simp
  with j(2,3) show "has_called a s" unfolding has_called_def by blast
qed

lemma inv_sequences:
  assumes i: "loop_inv s"
  shows "sequences a s = (case started s a of None \<Rightarrow> [] | Some t \<Rightarrow> [tasks s ! t])"
proof -
  from i have it: "inv_tasks s" by (simp add: loop_inv_def)
  have reg: "started s (task_name (tasks s ! u)) = Some u" if "u < length (tasks s)" for u
    using it that unfolding inv_tasks_def by blast
  have d: "distinct (map task_name (tasks s))"
    unfolding distinct_conv_nth
  proof (intro allI impI)
    fix u v assume "u < length (map task_name (tasks s))" "v < length (map task_name (tasks s))"
      and ne: "u \<noteq> v"
    then have "started s (task_name (tasks s ! u)) = Some u"
      and "started s (task_name (tasks s ! v)) = Some v" using reg by simp_all
    with ne have "task_name (tasks s ! u) \<noteq> task_name (tasks s ! v)" by auto
    then show "map task_name (tasks s) ! u \<noteq> map task_name (tasks s) ! v"
      using \<open>u < length (map task_name (tasks s))\<close> \<open>v < length (map task_name (tasks s))\<close>
      by simp
  qed
  show ?thesis
  proof (cases "started s a")
    case None
    have "task_name x \<noteq> a" if "x \<in> set (tasks s)" for x
    proof -
      from that obtain u where "u < length (tasks s)" "x = tasks s ! u"
        by (auto simp: in_set_conv_nth)
      with reg None show ?thesis by auto
    qed
    then have "filter (\<lambda>t. task_name t = a) (tasks s) = []" by (simp add: filter_empty_conv)
    with None show ?thesis by (simp add: sequences_def)
  next
    case (Some t)
    with it have t: "t < length (tasks s)" "task_name (tasks s ! t) = a"
      unfolding inv_tasks_def by blast+
    then have m: "tasks s ! t \<in> set (filter (\<lambda>t. task_name t = a) (tasks s))" by simp
    then have "a \<in> task_name ` set (tasks s)" by auto
    with count_distinct [OF d, of a]
    have "length (filter (\<lambda>t. task_name t = a) (tasks s)) = 1" by simp
    then obtain x where x: "filter (\<lambda>t. task_name t = a) (tasks s) = [x]"
      by (auto simp: length_Suc_conv)
    with m have "x = tasks s ! t" by simp
    with x Some show ?thesis by (simp add: sequences_def)
  qed
qed

text \<open>
  C10. Callers with any names call \<^verbatim>\<open>ensure_started\<close> on a new manager, and the event loop
  interleaves them and the background tasks in any order. At every moment each name has
  one background startup sequence if a caller has called with it and none otherwise, never
  two; no call raises; a caller that has returned finds the sequence of its name signalled;
  and a caller that is suspended waits for the very event that this sequence sets, so it
  can go on as soon as, and not before, the sequence has signalled.
\<close>

theorem single_startup_sequence:
  assumes s: "s = run_loop schedule (fresh_manager names)"
  shows "map fst (callers s) = names \<and>
         length (sequences a s) = (if has_called a s then 1 else 0) \<and>
         (\<forall>c \<in> set (callers s). \<forall>x. snd c \<noteq> Raised x) \<and>
         ((a, Returned) \<in> set (callers s) \<longrightarrow>
            (\<exists>t. sequences a s = [t] \<and> task_signalled t)) \<and>
         ((a, Waiting e) \<in> set (callers s) \<longrightarrow>
            (\<exists>t. sequences a s = [t] \<and> events s ! e = task_signalled t))"
proof -
  have i: "loop_inv s" unfolding s using inv_fresh by (rule inv_run)
  then have ie: "inv_events s" and ic: "inv_callers s" by (simp_all add: loop_inv_def)
  have ok: "caller_ok s c" if "c \<in> set (callers s)" for c
    using ic that unfolding inv_callers_def by (auto simp: in_set_conv_nth)
  have 1: "map fst (callers s) = names"
    unfolding s callers_run by (simp add: fresh_manager_def comp_def)
  have 2: "length (sequences a s) = (if has_called a s then 1 else 0)"
    unfolding inv_has_called [OF i] inv_sequences [OF i] by (simp split: option.splits)
  have 3: "\<forall>c \<in> set (callers s). \<forall>x. snd c \<noteq> Raised x"
  proof (intro ballI allI)
    fix c x assume "c \<in> set (callers s)"
    then have "caller_ok s c" by (rule ok)
    then show "snd c \<noteq> Raised x" by (cases c) auto
  qed
  have 4: "(a, Returned) \<in> set (callers s) \<longrightarrow> (\<exists>t. sequences a s = [t] \<and> task_signalled t)"
  proof
    assume "(a, Returned) \<in> set (callers s)"
    then have "caller_ok s (a, Returned)" by (rule ok)
    then obtain x where x: "initialized s a = Some x" "events s ! x" by auto
    with ie obtain t where t: "started s a = Some t"
      unfolding inv_events_def by (metis option.distinct(1) option.exhaust)
    with ie x have "task_signalled (tasks s ! t)" unfolding inv_events_def by blast
    with t show "\<exists>t. sequences a s = [t] \<and> task_signalled t"
      by (simp add: inv_sequences [OF i])
  qed
  have 5: "(a, Waiting e) \<in> set (callers s) \<longrightarrow>
            (\<exists>t. sequences a s = [t] \<and> events s ! e = task_signalled t)"
  proof
    assume "(a, Waiting e) \<in> set (callers s)"
    then have "caller_ok s (a, Waiting e)" by (rule ok)
    then have x: "initialized s a = Some e" by simp
    with ie obtain t where t: "started s a = Some t"
      unfolding inv_events_def by (metis option.distinct(1) option.exhaust)
    with ie x have "events s ! e = task_signalled (tasks s ! t)"
      unfolding inv_events_def by blast
    with t show "\<exists>t. sequences a s = [t] \<and> events s ! e = task_signalled t"
      by (simp add: inv_sequences [OF i])
  qed
  from 1 2 3 4 5 show ?thesis by (intro conjI)
qed

theorem single_startup_sequence_witness:
  "length (sequences ''a''
     (run_loop [Call 0, Call 1, Task 0 Yields, Call 2, Resume 1, Task 0 Enters, Resume 0, Resume 2]
        (fresh_manager [''a'', ''a'', ''a'']))) = 1 \<and>
   callers
     (run_loop [Call 0, Call 1, Task 0 Yields, Call 2, Resume 1, Task 0 Enters, Resume 0, Resume 2]
        (fresh_manager [''a'', ''a'', ''a''])) =
     [(''a'', Returned), (''a'', Waiting 1), (''a'', Returned)] \<and>
   map task_signalled (sequences ''a''
     (run_loop [Call 0, Call 1, Task 0 Yields, Call 2, Resume 1, Task 0 Enters, Resume 0, Resume 2]
        (fresh_manager [''a'', ''a'', ''a'']))) = [True]"
proof -
  define s where "s = run_loop
     [Call 0, Call 1, Task 0 Yields, Call 2, Resume 1, Task 0 Enters, Resume 0, Resume 2]
     (fresh_manager [''a'', ''a'', ''a''])"
  have c: "callers s = [(''a'', Returned), (''a'', Waiting 1), (''a'', Returned)]"
    unfolding s_def by code_simp
  then have h: "has_called ''a'' s" by (simp add: has_called_def)
  have r: "(''a'', Returned) \<in> set (callers s)" by (simp add: c)
  from single_startup_sequence [OF s_def, of "''a''" 1] h r
  have "length (sequences ''a'' s) = 1" and "\<exists>t. sequences ''a'' s = [t] \<and> task_signalled t"
    by simp_all
  then have "length (sequences ''a'' s) = 1 \<and> map task_signalled (sequences ''a'' s) = [True]"
    by auto
  with c show ?thesis unfolding s_def by simp
qed

end
